theory Spec2Isabelle
  imports Complex_Main "HOL-Library.Multiset" "HOL-Library.Finite_Map"
begin

section \<open>Data model of the flow editor (src/src/App.tsx)\<close>

text \<open>
  JavaScript numbers. A finite double is represented by its exact rational value, the
  three special values are constructors of their own. The rounding of inexact results
  and the sign of zero are not represented: the arithmetic node prints its operands
  into source text before evaluating them, and \<open>(-0).toString()\<close> is \<open>"0"\<close>, so the
  sign of a zero operand never reaches the evaluation.
\<close>

datatype jsnum = Fin rat | PosInf | NegInf | NaN

text \<open>Values of a parsed JSON document (\<open>JSON.parse\<close>); an object lists its keys in order.\<close>

datatype json =
    JNull
  | JBool bool
  | JNum jsnum
  | JStr string
  | JArr "json list"
  | JObj "(string \<times> json) list"

text \<open>The four options of the operator \<open>select\<close> of an arithmetic node.\<close>

datatype arith_op = Plus | Minus | Times | Divide

text \<open>
  \<open>node.data\<close> by node type, with the fields the three \<open>add...Node\<close> functions create:
  \<open>codeNode\<close> \<open>{code}\<close>, \<open>arithmeticNode\<close> \<open>{a, b, op, result}\<close>, \<open>httpNode\<close>
  \<open>{url, method, response}\<close>, and every other type (\<open>default\<close>) \<open>{label}\<close>. The
  node's \<open>type\<close> string is the constructor. \<open>result\<close> and \<open>response\<close> are \<open>null\<close>
  (\<open>None\<close>) until the node has been executed.
\<close>

datatype node_data =
    Code (code: string)
  | Arithmetic (a: jsnum) (b: jsnum) (op: arith_op) (result: "jsnum option")
  | Http (url: string) (http_method: string) (response: "string option")
  | Default (label: string)

text \<open>
  A node. \<open>others\<close> holds every further own property of \<open>node.data\<close> that a loaded
  document may carry; the source names none of them. In particular the source has no
  \<open>lastError\<close> property: reading it is a lookup in \<open>others\<close>, \<open>None\<close> being
  JavaScript's \<open>undefined\<close>.
\<close>

record node =
  node_id :: string
  position :: "int \<times> int"
  data :: node_data
  others :: "(string \<times> json) list"

definition lastError :: "node \<Rightarrow> json option" where
  "lastError n = map_of (others n) ''lastError''"

record edge =
  source :: string
  target :: string

section \<open>The host: script evaluation, the console and the network\<close>

text \<open>
  What \<open>new Function(code)()\<close> does for a script and what \<open>fetch(url, {method})\<close>
  followed by \<open>r.text()\<close> does for a request is the host's behaviour, taken as a
  parameter. A request yields the body, fails with an error whose \<open>message\<close> is given,
  or never settles (the source imposes no timeout).

  A script runs unsandboxed: it returns, throws (the thrown value as text) or never
  returns. When it throws, the \<open>catch\<close> calls \<open>console.error(e)\<close> through the global
  \<open>console\<close>, which a script may have replaced before. So the outcome of a throwing
  script includes what that call does: the browser's \<open>console.error\<close> writes the
  value and returns (\<open>Logged\<close>); a replacement may return without writing
  (\<open>Silent\<close>), throw a value of its own (\<open>LogThrows\<close>), which nothing catches, or
  never return (\<open>LogHangs\<close>). The global \<open>Function\<close> that evaluates the arithmetic
  nodes is taken to be the engine's own during the whole run.
\<close>

datatype log_outcome = Logged | Silent | LogThrows string | LogHangs

datatype script_outcome = Returns | Throws string log_outcome | Diverges

datatype fetch_outcome = Body string | Fails string | Unsettled

record host =
  run_script :: "string \<Rightarrow> script_outcome"
  fetch :: "string \<Rightarrow> string \<Rightarrow> fetch_outcome"

text \<open>
  Exceptions that leave \<open>executeFlow\<close> uncaught (the promise is rejected): the two
  kinds the engine raises in the source's own operations, and a value thrown by a
  function that a script has installed.
\<close>

datatype js_error = TypeError | SyntaxError | Thrown string

section \<open>Arithmetic nodes: \<open>Function(`return ${a}${op}${b}`)()\<close>\<close>

fun js_neg :: "jsnum \<Rightarrow> jsnum" where
  "js_neg (Fin q) = Fin (- q)"
| "js_neg PosInf = NegInf"
| "js_neg NegInf = PosInf"
| "js_neg NaN = NaN"

fun js_add :: "jsnum \<Rightarrow> jsnum \<Rightarrow> jsnum" where
  "js_add NaN y = NaN"
| "js_add x NaN = NaN"
| "js_add (Fin p) (Fin q) = Fin (p + q)"
| "js_add PosInf NegInf = NaN"
| "js_add NegInf PosInf = NaN"
| "js_add PosInf y = PosInf"
| "js_add NegInf y = NegInf"
| "js_add x PosInf = PosInf"
| "js_add x NegInf = NegInf"

definition js_sub :: "jsnum \<Rightarrow> jsnum \<Rightarrow> jsnum" where
  "js_sub x y = js_add x (js_neg y)"

text \<open>The sign of a number: \<open>None\<close> for \<open>NaN\<close>, otherwise -1, 0 or 1.\<close>

fun js_sign :: "jsnum \<Rightarrow> int option" where
  "js_sign (Fin q) = Some (if q < 0 then - 1 else if q = 0 then 0 else 1)"
| "js_sign PosInf = Some 1"
| "js_sign NegInf = Some (- 1)"
| "js_sign NaN = None"

definition signed_inf :: "int \<Rightarrow> jsnum" where
  "signed_inf s = (if s < 0 then NegInf else PosInf)"

fun js_mul :: "jsnum \<Rightarrow> jsnum \<Rightarrow> jsnum" where
  "js_mul (Fin p) (Fin q) = Fin (p * q)"
| "js_mul x y =
     (case (js_sign x, js_sign y) of
        (Some s, Some t) \<Rightarrow> (if s * t = 0 then NaN else signed_inf (s * t))
      | _ \<Rightarrow> NaN)"

text \<open>
  Division. The divisor zero is the positive zero (it was printed as \<open>0\<close>), so a
  nonzero dividend gives the infinity of its own sign and \<open>0/0\<close> gives \<open>NaN\<close>.
\<close>

fun js_div :: "jsnum \<Rightarrow> jsnum \<Rightarrow> jsnum" where
  "js_div NaN y = NaN"
| "js_div x NaN = NaN"
| "js_div (Fin p) (Fin q) =
     (if q = 0 then (if p = 0 then NaN else signed_inf (if p < 0 then - 1 else 1))
      else Fin (p / q))"
| "js_div (Fin p) y = Fin 0"
| "js_div x (Fin q) =
     (case js_sign x of
        Some s \<Rightarrow> signed_inf (if q < 0 then - s else s)
      | None \<Rightarrow> NaN)"
| "js_div x y = NaN"

text \<open>Whether \<open>Number.prototype.toString\<close> prints a leading minus sign.\<close>

fun prints_minus :: "jsnum \<Rightarrow> bool" where
  "prints_minus (Fin q) = (q < 0)"
| "prints_minus NegInf = True"
| "prints_minus x = False"

text \<open>
  The node builds the text \<open>return\<close> \<open>a\<close> \<open>op\<close> \<open>b\<close> by concatenation and evaluates
  it with \<open>Function\<close>. For numbers \<open>a\<close>, \<open>b\<close> and one of the four operators the text
  is the binary expression, with one exception: with \<open>op = '-'\<close> and a \<open>b\<close> that prints
  a minus sign the text contains \<open>--\<close>, a decrement of a literal, and \<open>Function\<close>
  throws a \<open>SyntaxError\<close>. The source has no \<open>try\<close> around it.
\<close>

definition eval_arith :: "jsnum \<Rightarrow> arith_op \<Rightarrow> jsnum \<Rightarrow> js_error + jsnum" where
  "eval_arith x f y =
     (if f = Minus \<and> prints_minus y then Inl SyntaxError
      else Inr (case f of
                  Plus \<Rightarrow> js_add x y
                | Minus \<Rightarrow> js_sub x y
                | Times \<Rightarrow> js_mul x y
                | Divide \<Rightarrow> js_div x y))"

section \<open>Executing the nodes in order (the \<open>for (const id of order)\<close> loop)\<close>

text \<open>
  The body of the \<open>switch (node.type)\<close>: the node as mutated, with the lines written
  to the console, or the exception that escapes, or no return at all.
  \<^item> \<open>codeNode\<close>: \<open>try { new Function(code)() } catch (e) { console.error(e) }\<close>;
    an exception of the script is caught, one of \<open>console.error\<close> is not;
  \<^item> \<open>arithmeticNode\<close>: \<open>node.data.result = Function(...)()\<close>, not in a \<open>try\<close>;
  \<^item> \<open>httpNode\<close>: \<open>response\<close> becomes the body, or in the \<open>catch\<close> \<open>e.message\<close>;
  \<^item> \<open>default\<close>: nothing.
\<close>

datatype node_step = Next node "string list" | Raise js_error | Stuck

definition execute_node :: "host \<Rightarrow> node \<Rightarrow> node_step" where
  "execute_node h n =
     (case data n of
        Code src \<Rightarrow>
          (case run_script h src of
             Returns \<Rightarrow> Next n []
           | Throws e l \<Rightarrow>
               (case l of
                  Logged \<Rightarrow> Next n [e]
                | Silent \<Rightarrow> Next n []
                | LogThrows v \<Rightarrow> Raise (Thrown v)
                | LogHangs \<Rightarrow> Stuck)
           | Diverges \<Rightarrow> Stuck)
      | Arithmetic x y f r \<Rightarrow>
          (case eval_arith x f y of
             Inl err \<Rightarrow> Raise err
           | Inr v \<Rightarrow> Next (n\<lparr>data := Arithmetic x y f (Some v)\<rparr>) [])
      | Http u m r \<Rightarrow>
          (case fetch h u m of
             Body t \<Rightarrow> Next (n\<lparr>data := Http u m (Some t)\<rparr>) []
           | Fails msg \<Rightarrow> Next (n\<lparr>data := Http u m (Some msg)\<rparr>) []
           | Unsettled \<Rightarrow> Stuck)
      | Default l \<Rightarrow> Next n [])"

text \<open>
  The nodes are mutated in place, so the state of a run is the node array itself plus
  the console. \<open>nodeMap\<close> is \<open>Object.fromEntries(nodes.map(n => [n.id, n]))\<close>: an id
  maps to the last node that carries it, here to that node's index in the array.
  (\<open>Object.fromEntries\<close> defines own properties, so every id is an ordinary key.)
\<close>

record flow =
  nodes :: "node list"
  console :: "string list"

datatype outcome = Fulfilled flow | Rejected js_error flow | Pending flow

definition nodeMap :: "node list \<Rightarrow> string \<Rightarrow> nat option" where
  "nodeMap ns = map_of (rev (zip (map node_id ns) [0..<length ns]))"

text \<open>
  The loop over the order. What a script, a request or \<open>console.error\<close> does may
  change during a run (scripts run earlier can replace globals, the network changes),
  so the run takes the host as it stands at each position of the order: \<open>hs 0\<close> is the
  host when the first id is reached, \<open>hs 1\<close> at the second, and so on.
\<close>

fun run_nodes ::
  "(nat \<Rightarrow> host) \<Rightarrow> (string \<Rightarrow> nat option) \<Rightarrow> string list \<Rightarrow> flow \<Rightarrow> outcome" where
  "run_nodes hs nm [] st = Fulfilled st"
| "run_nodes hs nm (i # rest) st =
     (case nm i of
        None \<Rightarrow> run_nodes (hs \<circ> Suc) nm rest st
      | Some k \<Rightarrow>
          (case execute_node (hs 0) (nodes st ! k) of
             Next n' out \<Rightarrow>
               run_nodes (hs \<circ> Suc) nm rest
                 (st\<lparr>nodes := (nodes st)[k := n'], console := console st @ out\<rparr>)
           | Raise err \<Rightarrow> Rejected err st
           | Stuck \<Rightarrow> Pending st))"

text \<open>A host that stays the same during the whole run.\<close>

definition steady :: "host \<Rightarrow> nat \<Rightarrow> host" where
  "steady h = (\<lambda>k. h)"

section \<open>Scheduling: Kahn's algorithm as written in \<open>executeFlow\<close>\<close>

text \<open>
  \<open>adj\<close> and \<open>indegree\<close> are plain objects (\<open>{}\<close>) used as dictionaries, here finite
  maps; a key that is absent reads as \<open>undefined\<close> (\<open>None\<close>). A plain object inherits
  from \<open>Object.prototype\<close>, which matters for one key, \<open>__proto__\<close>:
  \<^item> on \<open>indegree\<close> an assignment of a number to \<open>indegree['__proto__']\<close> is ignored,
    and reading it gives \<open>Object.prototype\<close>, which is not \<open>=== 0\<close> and converts to
    \<open>NaN\<close>, as \<open>undefined\<close> does: the key is never written and always reads as
    \<open>None\<close>;
  \<^item> on \<open>adj\<close> the assignment \<open>adj['__proto__'] = []\<close> makes the array the prototype
    of \<open>adj\<close>, and reading \<open>adj['__proto__']\<close> gives that array back, so there the key
    behaves like any other.
  The other inherited names (\<open>constructor\<close>, \<open>toString\<close>, ...) are functions: assigning
  to them creates an own property, \<open>.push\<close> on them throws a \<open>TypeError\<close> as it does on
  \<open>undefined\<close>, and they convert to \<open>NaN\<close>, so they behave as absent keys do.
\<close>

type_synonym tables = "(string, string list) fmap \<times> (string, jsnum) fmap"

definition indegree_get :: "(string, jsnum) fmap \<Rightarrow> string \<Rightarrow> jsnum option" where
  "indegree_get ind k = (if k = ''__proto__'' then None else fmlookup ind k)"

definition indegree_set :: "string \<Rightarrow> jsnum \<Rightarrow> (string, jsnum) fmap \<Rightarrow> (string, jsnum) fmap" where
  "indegree_set k v ind = (if k = ''__proto__'' then ind else fmupd k v ind)"

text \<open>\<open>x++\<close> and \<open>x--\<close> on a dictionary entry: \<open>undefined\<close> converts to \<open>NaN\<close>.\<close>

definition js_incr :: "jsnum option \<Rightarrow> jsnum" where
  "js_incr v = (case v of None \<Rightarrow> NaN | Some x \<Rightarrow> js_add x (Fin 1))"

definition js_decr :: "jsnum option \<Rightarrow> jsnum" where
  "js_decr v = (case v of None \<Rightarrow> NaN | Some x \<Rightarrow> js_sub x (Fin 1))"

text \<open>\<open>nodes.forEach(n => { adj[n.id] = []; indegree[n.id] = 0; })\<close>\<close>

fun init_tables :: "node list \<Rightarrow> tables \<Rightarrow> tables" where
  "init_tables [] g = g"
| "init_tables (n # ns) (adj, ind) =
     init_tables ns (fmupd (node_id n) [] adj, indegree_set (node_id n) (Fin 0) ind)"

text \<open>
  \<open>edges.forEach(e => { adj[e.source].push(e.target); indegree[e.target]++; })\<close>.
  When \<open>e.source\<close> is no node id, \<open>adj[e.source]\<close> is \<open>undefined\<close> (or an inherited
  value without \<open>push\<close>) and \<open>.push\<close> throws a \<open>TypeError\<close>. When \<open>e.target\<close> is no
  node id, \<open>indegree[e.target]\<close> becomes \<open>NaN\<close>.
\<close>

fun add_edges :: "edge list \<Rightarrow> tables \<Rightarrow> js_error + tables" where
  "add_edges [] g = Inr g"
| "add_edges (e # es) (adj, ind) =
     (case fmlookup adj (source e) of
        None \<Rightarrow> Inl TypeError
      | Some ts \<Rightarrow>
          add_edges es
            (fmupd (source e) (ts @ [target e]) adj,
             indegree_set (target e) (js_incr (indegree_get ind (target e))) ind))"

definition build_graph :: "node list \<Rightarrow> edge list \<Rightarrow> js_error + tables" where
  "build_graph ns es = add_edges es (init_tables ns (fmempty, fmempty))"

text \<open>\<open>nodes.filter(n => indegree[n.id] === 0).map(n => n.id)\<close>\<close>

definition initial_queue :: "node list \<Rightarrow> (string, jsnum) fmap \<Rightarrow> string list" where
  "initial_queue ns ind =
     map node_id (filter (\<lambda>n. indegree_get ind (node_id n) = Some (Fin 0)) ns)"

text \<open>
  The inner loop \<open>for (const tgt of adj[id]) { indegree[tgt]--; if (indegree[tgt] === 0)
  queue.push(tgt); }\<close> on the pair of \<open>indegree\<close> and \<open>queue\<close>; the test reads the
  entry again after the decrement.
\<close>

fun relax :: "string list \<Rightarrow> (string, jsnum) fmap \<times> string list \<Rightarrow> (string, jsnum) fmap \<times> string list" where
  "relax [] s = s"
| "relax (t # ts) (ind, q) =
     (let ind' = indegree_set t (js_decr (indegree_get ind t)) ind
      in relax ts (ind', if indegree_get ind' t = Some (Fin 0) then q @ [t] else q))"

text \<open>
  The ids whose in-degree is still a positive number. Only these can be pushed by the
  inner loop, and a pushed id leaves the set for good: this is what bounds the loop.
\<close>

definition pending :: "(string, jsnum) fmap \<Rightarrow> string set" where
  "pending ind = {t. \<exists>q. indegree_get ind t = Some (Fin q) \<and> 0 < q}"

lemma indegree_get_set:
  "indegree_get (indegree_set k v ind) k' =
     (if k' = k \<and> k \<noteq> ''__proto__'' then Some v else indegree_get ind k')"
  by (simp add: indegree_get_def indegree_set_def)

lemma finite_pending: "finite (pending ind)"
proof (rule finite_subset)
  show "pending ind \<subseteq> fmdom' ind"
    by (auto simp: pending_def indegree_get_def fmlookup_dom'_iff split: if_splits)
qed simp

lemma js_decr_zero: "js_decr v = Fin 0 \<longleftrightarrow> v = Some (Fin 1)"
proof (cases v)
  case None
  then show ?thesis by (simp add: js_decr_def)
next
  case (Some x)
  then show ?thesis by (cases x) (auto simp: js_decr_def js_sub_def)
qed

lemma js_decr_positive:
  "js_decr v = Fin q \<Longrightarrow> 0 < q \<Longrightarrow> \<exists>p. v = Some (Fin p) \<and> 0 < p"
proof (cases v)
  case None
  assume "js_decr v = Fin q"
  with None show ?thesis by (simp add: js_decr_def)
next
  case (Some x)
  assume "js_decr v = Fin q" "0 < q"
  with Some show ?thesis by (cases x) (auto simp: js_decr_def js_sub_def)
qed

lemma pending_decrement:
  "pending (indegree_set t (js_decr (indegree_get ind t)) ind) \<subseteq> pending ind"
  "indegree_get (indegree_set t (js_decr (indegree_get ind t)) ind) t = Some (Fin 0) \<Longrightarrow>
     t \<in> pending ind \<and>
     pending (indegree_set t (js_decr (indegree_get ind t)) ind) \<subseteq> pending ind - {t}"
proof -
  let ?ind = "indegree_set t (js_decr (indegree_get ind t)) ind"
  show sub: "pending ?ind \<subseteq> pending ind"
    using js_decr_positive [of "indegree_get ind t"]
    by (auto simp: pending_def indegree_get_set split: if_splits)
  assume z: "indegree_get ?ind t = Some (Fin 0)"
  then have "js_decr (indegree_get ind t) = Fin 0"
    unfolding indegree_get_set by (simp split: if_splits add: indegree_get_def)
  then have "indegree_get ind t = Some (Fin 1)" by (simp add: js_decr_zero)
  then have "t \<in> pending ind" by (simp add: pending_def)
  moreover have "t \<notin> pending ?ind" using z by (simp add: pending_def)
  ultimately show "t \<in> pending ind \<and> pending ?ind \<subseteq> pending ind - {t}"
    using sub by blast
qed

lemma relax_pending:
  "relax ts (ind, q) = (ind', q') \<Longrightarrow>
     \<exists>zs. q' = q @ zs \<and> distinct zs \<and> set zs \<subseteq> pending ind \<and>
          pending ind' \<subseteq> pending ind - set zs"
proof (induction ts arbitrary: ind q)
  case Nil
  then show ?case by simp
next
  case (Cons t ts)
  let ?ind = "indegree_set t (js_decr (indegree_get ind t)) ind"
  show ?case
  proof (cases "indegree_get ?ind t = Some (Fin 0)")
    case True
    with Cons.prems have "relax ts (?ind, q @ [t]) = (ind', q')"
      by (simp add: Let_def)
    from Cons.IH [OF this] obtain zs where zs:
      "q' = (q @ [t]) @ zs" "distinct zs" "set zs \<subseteq> pending ?ind"
      "pending ind' \<subseteq> pending ?ind - set zs"
      by blast
    from pending_decrement(2) [OF True]
    have t: "t \<in> pending ind" "pending ?ind \<subseteq> pending ind - {t}"
      by simp_all
    have "q' = q @ (t # zs)" using zs(1) by simp
    moreover have "distinct (t # zs)" using zs(2,3) t(2) by auto
    moreover have "set (t # zs) \<subseteq> pending ind" using zs(3) t by auto
    moreover have "pending ind' \<subseteq> pending ind - set (t # zs)" using zs(4) t(2) by auto
    ultimately show ?thesis by blast
  next
    case False
    with Cons.prems have "relax ts (?ind, q) = (ind', q')"
      by (simp add: Let_def)
    from Cons.IH [OF this] obtain zs where zs:
      "q' = q @ zs" "distinct zs" "set zs \<subseteq> pending ?ind"
      "pending ind' \<subseteq> pending ?ind - set zs"
      by blast
    have "set zs \<subseteq> pending ind" using zs(3) pending_decrement(1) [of t ind] by blast
    moreover have "pending ind' \<subseteq> pending ind - set zs"
      using zs(4) pending_decrement(1) [of t ind] by blast
    ultimately show ?thesis using zs(1,2) by blast
  qed
qed

lemma relax_measure:
  assumes "relax ts (ind, q) = (ind', q')"
  shows "length q' + card (pending ind') \<le> length q + card (pending ind)"
proof -
  from relax_pending [OF assms] obtain zs where zs:
    "q' = q @ zs" "distinct zs" "set zs \<subseteq> pending ind"
    "pending ind' \<subseteq> pending ind - set zs"
    by blast
  have "card (pending ind') \<le> card (pending ind - set zs)"
    using zs(4) finite_pending by (simp add: card_mono)
  also have "\<dots> = card (pending ind) - card (set zs)"
    using zs(3) finite_pending by (simp add: card_Diff_subset)
  also have "\<dots> = card (pending ind) - length zs"
    using zs(2) by (simp add: distinct_card)
  finally have "card (pending ind') \<le> card (pending ind) - length zs" .
  moreover have "length zs \<le> card (pending ind)"
    using zs(2,3) finite_pending by (metis card_mono distinct_card)
  ultimately show ?thesis using zs(1) by simp
qed

text \<open>
  The \<open>while (queue.length)\<close> loop: \<open>queue.shift()\<close>, \<open>order.push(id)\<close>, then the inner
  loop over \<open>adj[id]\<close>. Iterating an \<open>undefined\<close> \<open>adj[id]\<close> would throw a
  \<open>TypeError\<close>. Every iteration pushes exactly one id onto \<open>order\<close>, so the length of
  the returned order is the number of iterations.
\<close>

function kahn_loop ::
  "(string, string list) fmap \<Rightarrow> (string, jsnum) fmap \<Rightarrow> string list \<Rightarrow> string list
     \<Rightarrow> js_error + string list" where
  "kahn_loop adj ind [] order = Inr order"
| "kahn_loop adj ind (i # q) order =
     (case fmlookup adj i of
        None \<Rightarrow> Inl TypeError
      | Some ts \<Rightarrow>
          (case relax ts (ind, q) of
             (ind', q') \<Rightarrow> kahn_loop adj ind' q' (order @ [i])))"
  by pat_completeness auto
termination
proof (relation "measure (\<lambda>(adj, ind, q, order). length q + card (pending ind))", goal_cases)
  case 1
  show ?case by simp
next
  case 2
  then show ?case
    using relax_measure [OF sym] by (fastforce simp del: relax.simps)
qed

text \<open>The order \<open>executeFlow\<close> computes for a graph, or the exception thrown on the way.\<close>

definition schedule :: "node list \<Rightarrow> edge list \<Rightarrow> js_error + string list" where
  "schedule ns es =
     (case build_graph ns es of
        Inl err \<Rightarrow> Inl err
      | Inr (adj, ind) \<Rightarrow> kahn_loop adj ind (initial_queue ns ind) [])"

text \<open>
  \<open>executeFlow\<close>: build the tables, order the nodes, run them, and (when nothing was
  thrown) \<open>setNodes([...nodes])\<close>. The outcome carries the node array as mutated.
\<close>

definition executeFlow :: "(nat \<Rightarrow> host) \<Rightarrow> node list \<Rightarrow> edge list \<Rightarrow> outcome" where
  "executeFlow hs ns es =
     (case schedule ns es of
        Inl err \<Rightarrow> Rejected err \<lparr>nodes = ns, console = []\<rparr>
      | Inr order \<Rightarrow> run_nodes hs (nodeMap ns) order \<lparr>nodes = ns, console = []\<rparr>)"

section \<open>Importing a document (\<open>loadFlow\<close>) and connecting (\<open>onConnect\<close>)\<close>

text \<open>
  \<open>loadFlow\<close> reads the file, parses it with \<open>JSON.parse\<close> and calls
  \<open>setNodes(flow.nodes || [])\<close> and \<open>setEdges(flow.edges || [])\<close>. The model starts
  from the parsed document and returns the two values given to the setters, or the
  \<open>TypeError\<close> thrown by \<open>flow.nodes\<close> when the document is \<open>null\<close>.

  \<open>member\<close> is \<open>flow.key\<close> on a document that is not \<open>null\<close>, for the keys
  \<open>nodes\<close> and \<open>edges\<close>: only an object can have the property; of a repeated key
  \<open>JSON.parse\<close> keeps the last value. \<open>truthy\<close> is JavaScript's conversion to a
  boolean.
\<close>

fun member :: "json \<Rightarrow> string \<Rightarrow> json option" where
  "member (JObj kvs) k = map_of (rev kvs) k"
| "member v k = None"

fun truthy :: "json \<Rightarrow> bool" where
  "truthy JNull = False"
| "truthy (JBool c) = c"
| "truthy (JNum x) = (x \<noteq> Fin 0 \<and> x \<noteq> NaN)"
| "truthy (JStr s) = (s \<noteq> [])"
| "truthy (JArr vs) = True"
| "truthy (JObj kvs) = True"

text \<open>\<open>v || []\<close>\<close>

definition or_empty :: "json option \<Rightarrow> json" where
  "or_empty v = (case v of None \<Rightarrow> JArr [] | Some x \<Rightarrow> if truthy x then x else JArr [])"

definition loadFlow :: "json \<Rightarrow> js_error + (json \<times> json)" where
  "loadFlow flow =
     (case flow of
        JNull \<Rightarrow> Inl TypeError
      | _ \<Rightarrow> Inr (or_empty (member flow ''nodes''), or_empty (member flow ''edges'')))"

text \<open>
  \<open>onConnect\<close> is \<open>setEdges((eds) => addEdge(params, eds))\<close>; \<open>addEdge\<close> belongs to the
  reactflow library and is a parameter here.
\<close>

definition onConnect :: "('p \<Rightarrow> 'e list \<Rightarrow> 'e list) \<Rightarrow> 'p \<Rightarrow> 'e list \<Rightarrow> 'e list" where
  "onConnect addEdge params eds = addEdge params eds"

section \<open>Adding nodes\<close>

text \<open>
  The three \<open>add...Node\<close> functions take \<open>(nodes.length + 1).toString()\<close> as the id
  of the new node and append it. \<open>toString\<close> is the decimal numeral of a natural
  number.
\<close>

function toString :: "nat \<Rightarrow> string" where
  "toString n =
     (if n < 10 then [''0123456789'' ! n]
      else toString (n div 10) @ [''0123456789'' ! (n mod 10)])"
  by pat_completeness auto
termination
  by (relation "measure (\<lambda>n. n)") auto

declare toString.simps [simp del]

definition initialNodes :: "node list" where
  "initialNodes =
     [\<lparr>node_id = ''1'', position = (250, 5), data = Default ''Start Node'', others = []\<rparr>]"

definition addCodeNode :: "node list \<Rightarrow> node list" where
  "addCodeNode ns =
     ns @ [\<lparr>node_id = toString (length ns + 1), position = (100, 100),
            data = Code ''// write JS here'', others = []\<rparr>]"

definition addArithmeticNode :: "node list \<Rightarrow> node list" where
  "addArithmeticNode ns =
     ns @ [\<lparr>node_id = toString (length ns + 1), position = (200, 200),
            data = Arithmetic (Fin 0) (Fin 0) Plus None, others = []\<rparr>]"

definition addHttpNode :: "node list \<Rightarrow> node list" where
  "addHttpNode ns =
     ns @ [\<lparr>node_id = toString (length ns + 1), position = (300, 300),
            data = Http '''' ''GET'' None, others = []\<rparr>]"

text \<open>
  Deleting a node on the canvas reaches the state through \<open>onNodesChange\<close> of the
  reactflow library, which drops the node with the given id from the array.
\<close>

definition removeNode :: "string \<Rightarrow> node list \<Rightarrow> node list" where
  "removeNode i ns = filter (\<lambda>n. node_id n \<noteq> i) ns"

section \<open>Notions used to state the scheduling properties\<close>

text \<open>
  The edges as a relation, the targets of the edges that leave a node (in edge order)
  and the number of edges that enter a node.
\<close>

definition edge_rel :: "edge list \<Rightarrow> (string \<times> string) set" where
  "edge_rel es = (\<lambda>e. (source e, target e)) ` set es"

definition out_targets :: "edge list \<Rightarrow> string \<Rightarrow> string list" where
  "out_targets es s = map target (filter (\<lambda>e. source e = s) es)"

definition in_count :: "edge list \<Rightarrow> string \<Rightarrow> nat" where
  "in_count es t = length (filter (\<lambda>e. target e = t) es)"

text \<open>
  \<open>precedes x y xs\<close>: \<open>y\<close> occurs in \<open>xs\<close> after the first occurrence of \<open>x\<close>. In a
  list without repetitions this is: \<open>x\<close> stands before \<open>y\<close>.
\<close>

fun precedes :: "'a \<Rightarrow> 'a \<Rightarrow> 'a list \<Rightarrow> bool" where
  "precedes x y [] = False"
| "precedes x y (z # zs) = (if z = x then y \<in> set zs else precedes x y zs)"

text \<open>The flow inside an outcome: the node array as the run left it.\<close>

fun final_flow :: "outcome \<Rightarrow> flow" where
  "final_flow (Fulfilled st) = st"
| "final_flow (Rejected err st) = st"
| "final_flow (Pending st) = st"

text \<open>An in-degree entry that is \<open>undefined\<close> or \<open>NaN\<close>; it stays so.\<close>

definition no_count :: "jsnum option \<Rightarrow> bool" where
  "no_count v \<longleftrightarrow> v = None \<or> v = Some NaN"

text \<open>
  The invariant that bounds the loop on any graph: what has been dequeued or is queued
  is, as a multiset, part of the declared ids, and an id with a positive in-degree is
  declared and has not been enqueued yet.
\<close>

definition within_nodes ::
  "string list \<Rightarrow> (string, jsnum) fmap \<Rightarrow> string list \<Rightarrow> string list \<Rightarrow> bool" where
  "within_nodes ids ind q order \<longleftrightarrow>
     mset (order @ q) \<subseteq># mset ids \<and>
     pending ind \<subseteq> set ids - set (order @ q)"

text \<open>The number of edges into \<open>t\<close> whose source has not been dequeued yet.\<close>

definition remaining :: "edge list \<Rightarrow> string list \<Rightarrow> string \<Rightarrow> nat" where
  "remaining es order t =
     length (filter (\<lambda>e. target e = t \<and> source e \<notin> set order) es)"

text \<open>
  The ids that dequeuing \<open>i\<close> makes ready when the ids in \<open>prev\<close> have been dequeued
  before it: the targets of \<open>i\<close> whose remaining incoming edges all come from \<open>i\<close>,
  each at the place of the last edge from \<open>i\<close> to it, so in the order of the edges
  of \<open>i\<close>. \<open>releases_from es prev order\<close> lists what the ids of \<open>order\<close> release one
  after the other.
\<close>

definition released :: "edge list \<Rightarrow> string list \<Rightarrow> string \<Rightarrow> string list" where
  "released es prev i =
     filter (\<lambda>t. t \<noteq> ''__proto__'' \<and> remaining es prev t = count_list (out_targets es i) t)
       (remdups (out_targets es i))"

fun releases_from :: "edge list \<Rightarrow> string list \<Rightarrow> string list \<Rightarrow> string list" where
  "releases_from es prev [] = []"
| "releases_from es prev (i # rest) = released es prev i @ releases_from es (prev @ [i]) rest"

text \<open>
  The invariant of the loop on a graph with unique ids whose edges join declared
  nodes; \<open>K\<close> is the set of the declared ids other than \<open>__proto__\<close>. Nothing is
  enqueued twice; \<open>indegree\<close> holds the number of remaining edges; the ids dequeued
  or queued are those with no remaining edge; and each dequeued id comes after the
  sources of all its incoming edges.
\<close>

definition topo_inv ::
  "string set \<Rightarrow> edge list \<Rightarrow> (string, jsnum) fmap \<Rightarrow> string list \<Rightarrow> string list \<Rightarrow> bool" where
  "topo_inv K es ind q order \<longleftrightarrow>
     distinct (order @ q) \<and> set (order @ q) \<subseteq> K \<and>
     (\<forall>t\<in>K. indegree_get ind t = Some (Fin (of_nat (remaining es order t)))) \<and>
     (\<forall>t\<in>K. t \<in> set (order @ q) \<longleftrightarrow> remaining es order t = 0) \<and>
     (\<forall>e\<in>set es. target e \<in> set order \<longrightarrow> precedes (source e) (target e) order)"

section \<open>Example inputs\<close>

text \<open>
  A host without network: every request fails with the browser's message. The script
  \<open>throw 1\<close> throws and the browser's \<open>console.error\<close> logs the value; the script
  \<open>console.error = () => { throw 0 }; throw 1\<close> replaces \<open>console.error\<close> before it
  throws, so the call in the \<open>catch\<close> throws 0; every other script returns.
\<close>

definition offline_host :: host where
  "offline_host =
     \<lparr>run_script =
        (\<lambda>src. if src = ''throw 1'' then Throws ''1'' Logged
               else if src = ''console.error = () => { throw 0 }; throw 1''
               then Throws ''1'' (LogThrows ''0'')
               else Returns),
      fetch = (\<lambda>u m. Fails ''Failed to fetch'')\<rparr>"

text \<open>
  Nodes: the arithmetic nodes \<open>4 / 0\<close> and \<open>6 * 3\<close> (the latter also with a
  \<open>lastError\<close> left by an imported document), an http node that holds an earlier
  response, a code node whose script throws, one whose script also replaces
  \<open>console.error\<close>, an arithmetic node \<open>1 + 1\<close> and a node of the default type with a
  given id; an edge from \<open>s\<close> to \<open>t\<close>; a node and a dangling edge as they stand in a
  document.
\<close>

definition four_by_zero :: node where
  "four_by_zero =
     \<lparr>node_id = ''2'', position = (200, 200),
      data = Arithmetic (Fin 4) (Fin 0) Divide None, others = []\<rparr>"

definition six_times_three :: node where
  "six_times_three =
     \<lparr>node_id = ''A'', position = (200, 200),
      data = Arithmetic (Fin 6) (Fin 3) Times None, others = []\<rparr>"

definition six_times_three_stale :: node where
  "six_times_three_stale =
     \<lparr>node_id = ''A'', position = (200, 200),
      data = Arithmetic (Fin 6) (Fin 3) Times None,
      others = [(''lastError'', JStr ''division by zero'')]\<rparr>"

definition fetched_before :: node where
  "fetched_before =
     \<lparr>node_id = ''3'', position = (300, 300),
      data = Http ''http://localhost/'' ''GET'' (Some ''ok''), others = []\<rparr>"

definition throwing :: node where
  "throwing =
     \<lparr>node_id = ''2'', position = (100, 100), data = Code ''throw 1'', others = []\<rparr>"

definition sabotaging :: node where
  "sabotaging =
     \<lparr>node_id = ''1'', position = (100, 100),
      data = Code ''console.error = () => { throw 0 }; throw 1'', others = []\<rparr>"

definition one_plus_one :: "string \<Rightarrow> node" where
  "one_plus_one i =
     \<lparr>node_id = i, position = (200, 200),
      data = Arithmetic (Fin 1) (Fin 1) Plus None, others = []\<rparr>"

definition plain_json :: json where
  "plain_json = JObj [(''id'', JStr ''1''), (''type'', JStr ''default'')]"

definition dangling_json :: json where
  "dangling_json = JObj [(''source'', JStr ''x''), (''target'', JStr ''y'')]"

definition plain :: "string \<Rightarrow> node" where
  "plain i = \<lparr>node_id = i, position = (0, 0), data = Default i, others = []\<rparr>"

definition arrow :: "string \<Rightarrow> string \<Rightarrow> edge" where
  "arrow s t = \<lparr>source = s, target = t\<rparr>"

section \<open>Node execution\<close>

text \<open>
  C2, as the claim states it, fails: executing the arithmetic node \<open>{a: 4, b: 0, op: '/'}\<close>
  stores \<open>Infinity\<close> in \<open>result\<close>, and \<open>lastError\<close> stays \<open>undefined\<close>.
\<close>

theorem division_by_zero_counterexample:
  "execute_node offline_host four_by_zero =
     Next (four_by_zero\<lparr>data := Arithmetic (Fin 4) (Fin 0) Divide (Some PosInf)\<rparr>) []
   \<and> lastError (four_by_zero\<lparr>data := Arithmetic (Fin 4) (Fin 0) Divide (Some PosInf)\<rparr>) = None"
  by (simp add: execute_node_def eval_arith_def four_by_zero_def signed_inf_def lastError_def)

text \<open>
  C2, amended: for every arithmetic node with operator \<open>/\<close> and operand \<open>b\<close> equal to 0,
  execution stores the JavaScript quotient in \<open>result\<close>, which is \<open>-Infinity\<close> for a
  negative \<open>a\<close>, \<open>NaN\<close> for \<open>a\<close> zero or \<open>NaN\<close> and \<open>Infinity\<close> otherwise; nothing is
  raised and \<open>lastError\<close> is left as it was.
\<close>

theorem division_by_zero_stores_quotient:
  assumes "data n = Arithmetic x (Fin 0) Divide r"
  shows "execute_node h n =
           Next (n\<lparr>data := Arithmetic x (Fin 0) Divide (Some (js_div x (Fin 0)))\<rparr>) []
         \<and> js_div x (Fin 0) =
             (if prints_minus x then NegInf
              else if x = Fin 0 \<or> x = NaN then NaN else PosInf)
         \<and> lastError (n\<lparr>data := Arithmetic x (Fin 0) Divide (Some (js_div x (Fin 0)))\<rparr>)
             = lastError n"
  using assms
  by (cases x) (simp_all add: execute_node_def eval_arith_def signed_inf_def lastError_def)

theorem division_by_zero_stores_quotient_witness:
  "data four_by_zero = Arithmetic (Fin 4) (Fin 0) Divide None
   \<and> execute_node offline_host four_by_zero =
       Next (four_by_zero\<lparr>data := Arithmetic (Fin 4) (Fin 0) Divide (Some PosInf)\<rparr>) []"
proof -
  have d: "data four_by_zero = Arithmetic (Fin 4) (Fin 0) Divide None"
    by (simp add: four_by_zero_def)
  from division_by_zero_stores_quotient [OF d, of offline_host] d
  show ?thesis by simp
qed

text \<open>
  C8, as the claim states it, fails in its second half: the source never writes
  \<open>lastError\<close>. A node that carries \<open>lastError = "division by zero"\<close> (from an imported
  document) still carries it after computing 18, and a node created by
  \<open>addArithmeticNode\<close> has no \<open>lastError\<close> property before or after.
\<close>

theorem six_times_three_counterexample:
  "execute_node offline_host six_times_three_stale =
     Next (six_times_three_stale\<lparr>data := Arithmetic (Fin 6) (Fin 3) Times (Some (Fin 18))\<rparr>) []
   \<and> lastError (six_times_three_stale\<lparr>data := Arithmetic (Fin 6) (Fin 3) Times (Some (Fin 18))\<rparr>)
       = Some (JStr ''division by zero'')
   \<and> lastError (six_times_three\<lparr>data := Arithmetic (Fin 6) (Fin 3) Times (Some (Fin 18))\<rparr>)
       = None"
  by (simp add: execute_node_def eval_arith_def six_times_three_stale_def
        six_times_three_def lastError_def)

text \<open>
  C8, amended: for every arithmetic node with \<open>a = 6\<close>, \<open>b = 3\<close> and operator \<open>*\<close>,
  execution sets \<open>result\<close> to 18 and leaves \<open>lastError\<close> as it was.
\<close>

theorem six_times_three_result:
  assumes "data n = Arithmetic (Fin 6) (Fin 3) Times r"
  shows "execute_node h n =
           Next (n\<lparr>data := Arithmetic (Fin 6) (Fin 3) Times (Some (Fin 18))\<rparr>) []
         \<and> lastError (n\<lparr>data := Arithmetic (Fin 6) (Fin 3) Times (Some (Fin 18))\<rparr>)
             = lastError n"
  using assms by (simp add: execute_node_def eval_arith_def lastError_def)

theorem six_times_three_result_witness:
  "data six_times_three = Arithmetic (Fin 6) (Fin 3) Times None
   \<and> execute_node offline_host six_times_three =
       Next (six_times_three\<lparr>data := Arithmetic (Fin 6) (Fin 3) Times (Some (Fin 18))\<rparr>) []"
proof -
  have d: "data six_times_three = Arithmetic (Fin 6) (Fin 3) Times None"
    by (simp add: six_times_three_def)
  from six_times_three_result [OF d, of offline_host] d
  show ?thesis by simp
qed

text \<open>
  C3, as the claim states it, fails: when the request of an http node fails, the
  \<open>catch\<close> overwrites \<open>response\<close> (here the earlier body \<open>ok\<close>) with the error's
  message, and \<open>lastError\<close> stays \<open>undefined\<close>.
\<close>

theorem http_failure_counterexample:
  "execute_node offline_host fetched_before =
     Next (fetched_before\<lparr>data := Http ''http://localhost/'' ''GET'' (Some ''Failed to fetch'')\<rparr>) []
   \<and> response (data fetched_before) = Some ''ok''
   \<and> lastError (fetched_before\<lparr>data := Http ''http://localhost/'' ''GET'' (Some ''Failed to fetch'')\<rparr>)
       = None"
  by (simp add: execute_node_def fetched_before_def offline_host_def lastError_def)

text \<open>
  C3, amended: for every http node whose request fails, execution stores the error's
  message in the node's \<open>response\<close> field, replacing the previous value, and leaves
  \<open>lastError\<close> as it was.
\<close>

theorem http_failure_overwrites_response:
  assumes "data n = Http u m r" and "fetch h u m = Fails msg"
  shows "execute_node h n = Next (n\<lparr>data := Http u m (Some msg)\<rparr>) []
         \<and> lastError (n\<lparr>data := Http u m (Some msg)\<rparr>) = lastError n"
  using assms by (simp add: execute_node_def lastError_def)

theorem http_failure_overwrites_response_witness:
  "data fetched_before = Http ''http://localhost/'' ''GET'' (Some ''ok'')
   \<and> fetch offline_host ''http://localhost/'' ''GET'' = Fails ''Failed to fetch''
   \<and> execute_node offline_host fetched_before =
       Next (fetched_before\<lparr>data := Http ''http://localhost/'' ''GET'' (Some ''Failed to fetch'')\<rparr>) []"
proof -
  have d: "data fetched_before = Http ''http://localhost/'' ''GET'' (Some ''ok'')"
    by (simp add: fetched_before_def)
  have f: "fetch offline_host ''http://localhost/'' ''GET'' = Fails ''Failed to fetch''"
    by (simp add: offline_host_def)
  from http_failure_overwrites_response [OF d f] d f
  show ?thesis by simp
qed

text \<open>
  C4, as the claim states it, fails in its first half: the \<open>catch\<close> of a code node
  writes the exception to the console and stores nothing. After the run the node is
  as it was, without a \<open>lastError\<close>.
\<close>

theorem throwing_script_counterexample:
  "executeFlow (steady offline_host) [throwing] [] =
     Fulfilled \<lparr>nodes = [throwing], console = [''1'']\<rparr>
   \<and> lastError throwing = None"
  by (simp add: executeFlow_def schedule_def build_graph_def initial_queue_def nodeMap_def
        indegree_get_def indegree_set_def execute_node_def offline_host_def steady_def
        throwing_def lastError_def)

text \<open>
  C4, amended: for every code node whose script throws, execution catches the failure
  and passes it to \<open>console.error\<close>; nothing is stored on the node, so none of its
  fields (\<open>lastError\<close> included) is changed. When \<open>console.error\<close> returns, the flow
  goes on with the next node of the scheduled order; the browser's \<open>console.error\<close>
  has then written the failure to the console. When \<open>console.error\<close> has been
  replaced (a script can do that) by a function that throws, that exception is not
  caught: the run ends at this node and is rejected. When it never returns, the run
  never settles.
\<close>

theorem throwing_script_goes_to_console_error:
  assumes "nm i = Some k" and "data (nodes st ! k) = Code src"
    and "run_script (hs 0) src = Throws e l"
  shows "run_nodes hs nm (i # rest) st =
           (case l of
              Logged \<Rightarrow> run_nodes (hs \<circ> Suc) nm rest (st\<lparr>console := console st @ [e]\<rparr>)
            | Silent \<Rightarrow> run_nodes (hs \<circ> Suc) nm rest st
            | LogThrows v \<Rightarrow> Rejected (Thrown v) st
            | LogHangs \<Rightarrow> Pending st)
         \<and> (\<forall>n' out. execute_node (hs 0) (nodes st ! k) = Next n' out \<longrightarrow> n' = nodes st ! k)"
  using assms by (cases l) (simp_all add: execute_node_def)

theorem throwing_script_goes_to_console_error_witness:
  "nodeMap [throwing, six_times_three] ''2'' = Some 0
   \<and> data (nodes \<lparr>nodes = [throwing, six_times_three], console = []\<rparr> ! 0) = Code ''throw 1''
   \<and> run_script (steady offline_host 0) ''throw 1'' = Throws ''1'' Logged
   \<and> run_nodes (steady offline_host) (nodeMap [throwing, six_times_three]) [''2'', ''A'']
         \<lparr>nodes = [throwing, six_times_three], console = []\<rparr> =
       run_nodes (steady offline_host \<circ> Suc) (nodeMap [throwing, six_times_three]) [''A'']
         \<lparr>nodes = [throwing, six_times_three], console = [''1'']\<rparr>
   \<and> nodeMap [sabotaging, six_times_three] ''1'' = Some 0
   \<and> data (nodes \<lparr>nodes = [sabotaging, six_times_three], console = []\<rparr> ! 0) =
       Code ''console.error = () => { throw 0 }; throw 1''
   \<and> run_script (steady offline_host 0) ''console.error = () => { throw 0 }; throw 1'' =
       Throws ''1'' (LogThrows ''0'')
   \<and> run_nodes (steady offline_host) (nodeMap [sabotaging, six_times_three]) [''1'', ''A'']
         \<lparr>nodes = [sabotaging, six_times_three], console = []\<rparr> =
       Rejected (Thrown ''0'') \<lparr>nodes = [sabotaging, six_times_three], console = []\<rparr>"
proof -
  let ?st = "\<lparr>nodes = [throwing, six_times_three], console = []\<rparr>"
  let ?st' = "\<lparr>nodes = [sabotaging, six_times_three], console = []\<rparr>"
  have m: "nodeMap [throwing, six_times_three] ''2'' = Some 0"
    by (simp add: nodeMap_def throwing_def six_times_three_def)
  have d: "data (nodes ?st ! 0) = Code ''throw 1''"
    by (simp add: throwing_def)
  have r: "run_script (steady offline_host 0) ''throw 1'' = Throws ''1'' Logged"
    by (simp add: offline_host_def steady_def)
  have m': "nodeMap [sabotaging, six_times_three] ''1'' = Some 0"
    by (simp add: nodeMap_def sabotaging_def six_times_three_def)
  have d': "data (nodes ?st' ! 0) = Code ''console.error = () => { throw 0 }; throw 1''"
    by (simp add: sabotaging_def)
  have r': "run_script (steady offline_host 0) ''console.error = () => { throw 0 }; throw 1'' =
              Throws ''1'' (LogThrows ''0'')"
    by (simp add: offline_host_def steady_def)
  from throwing_script_goes_to_console_error
         [where nm = "nodeMap [throwing, six_times_three]" and i = "''2''" and k = 0
            and st = ?st and src = "''throw 1''" and hs = "steady offline_host"
            and e = "''1''" and l = Logged and rest = "[''A'']", OF m d r]
  have one: "run_nodes (steady offline_host) (nodeMap [throwing, six_times_three])
               [''2'', ''A''] ?st =
             run_nodes (steady offline_host \<circ> Suc) (nodeMap [throwing, six_times_three])
               [''A''] \<lparr>nodes = [throwing, six_times_three], console = [''1'']\<rparr>"
    by simp
  from throwing_script_goes_to_console_error
         [where nm = "nodeMap [sabotaging, six_times_three]" and i = "''1''" and k = 0
            and st = ?st' and src = "''console.error = () => { throw 0 }; throw 1''"
            and hs = "steady offline_host" and e = "''1''" and l = "LogThrows ''0''"
            and rest = "[''A'']", OF m' d' r']
  have two: "run_nodes (steady offline_host) (nodeMap [sabotaging, six_times_three])
               [''1'', ''A''] ?st' = Rejected (Thrown ''0'') ?st'"
    by simp
  from m d r one m' d' r' two show ?thesis by (intro conjI)
qed

section \<open>Import and connect\<close>

text \<open>
  C5, as the claim states it, fails: importing the document \<open>{"nodes": []}\<close>, which
  has no \<open>edges\<close> key, succeeds and yields the graph with no edges.
\<close>

theorem missing_edges_counterexample:
  "loadFlow (JObj [(''nodes'', JArr [])]) = Inr (JArr [], JArr [])"
  by (simp add: loadFlow_def or_empty_def)

text \<open>
  C5, amended: for every imported document other than \<open>null\<close> that is missing the
  \<open>edges\<close> key (or the \<open>nodes\<close> key), the import succeeds and takes the empty array
  for the missing field.
\<close>

theorem missing_field_defaults_to_empty:
  assumes "flow \<noteq> JNull"
  shows "(member flow ''edges'' = None \<longrightarrow>
            loadFlow flow = Inr (or_empty (member flow ''nodes''), JArr []))
         \<and> (member flow ''nodes'' = None \<longrightarrow>
            loadFlow flow = Inr (JArr [], or_empty (member flow ''edges'')))"
  using assms by (cases flow) (simp_all add: loadFlow_def or_empty_def)

theorem missing_field_defaults_to_empty_witness:
  "JObj [(''nodes'', JArr [plain_json])] \<noteq> JNull
   \<and> member (JObj [(''nodes'', JArr [plain_json])]) ''edges'' = None
   \<and> loadFlow (JObj [(''nodes'', JArr [plain_json])]) = Inr (JArr [plain_json], JArr [])"
proof -
  have n: "JObj [(''nodes'', JArr [plain_json])] \<noteq> JNull" by simp
  have e: "member (JObj [(''nodes'', JArr [plain_json])]) ''edges'' = None" by simp
  from missing_field_defaults_to_empty [OF n] e
  show ?thesis by (simp add: or_empty_def)
qed

text \<open>
  C6, as the claim states it, fails: importing a document with no nodes and the edge
  \<open>x \<rightarrow> y\<close> succeeds, and the dangling edge is in the graph.
\<close>

theorem dangling_edge_counterexample:
  "loadFlow (JObj [(''nodes'', JArr []), (''edges'', JArr [dangling_json])]) =
     Inr (JArr [], JArr [dangling_json])"
  by (simp add: loadFlow_def or_empty_def)

text \<open>
  C6, amended: load and connect raise no structural error. \<open>loadFlow\<close> takes the
  \<open>edges\<close> array of the document as it is, whatever the endpoints of its edges, and
  \<open>onConnect\<close> stores what the library's \<open>addEdge\<close> returns without a check of its
  own.
\<close>

theorem edges_are_taken_unchecked:
  assumes "member flow ''edges'' = Some (JArr es)"
  shows "loadFlow flow = Inr (or_empty (member flow ''nodes''), JArr es)
         \<and> onConnect addEdge params eds = addEdge params eds"
  using assms by (cases flow) (simp_all add: loadFlow_def or_empty_def onConnect_def)

theorem edges_are_taken_unchecked_witness:
  "member (JObj [(''nodes'', JArr []), (''edges'', JArr [dangling_json])]) ''edges''
     = Some (JArr [dangling_json])
   \<and> loadFlow (JObj [(''nodes'', JArr []), (''edges'', JArr [dangling_json])]) =
       Inr (JArr [], JArr [dangling_json])
   \<and> onConnect (\<lambda>p es. es @ [p]) (arrow ''x'' ''y'') [] = [arrow ''x'' ''y'']"
proof -
  have e: "member (JObj [(''nodes'', JArr []), (''edges'', JArr [dangling_json])]) ''edges''
             = Some (JArr [dangling_json])"
    by simp
  from edges_are_taken_unchecked
         [OF e, where addEdge = "\<lambda>p es. es @ [p]" and params = "arrow ''x'' ''y''"
            and eds = "[]"] e
  show ?thesis by (simp add: or_empty_def)
qed

section \<open>Node ids\<close>

lemma add_node_ids:
  "distinct (map node_id (addCodeNode ns)) \<longleftrightarrow>
     distinct (map node_id ns) \<and> toString (length ns + 1) \<notin> node_id ` set ns"
  "distinct (map node_id (addArithmeticNode ns)) \<longleftrightarrow>
     distinct (map node_id ns) \<and> toString (length ns + 1) \<notin> node_id ` set ns"
  "distinct (map node_id (addHttpNode ns)) \<longleftrightarrow>
     distinct (map node_id ns) \<and> toString (length ns + 1) \<notin> node_id ` set ns"
  by (auto simp: addCodeNode_def addArithmeticNode_def addHttpNode_def)

text \<open>
  C9: node ids are unique and every add-node operation keeps them so. The source
  takes \<open>nodes.length + 1\<close> as the new id, which repeats an id once a node has been
  deleted: from the initial graph, add a code node (ids 1, 2), delete node 1, add a
  code node again: both nodes now have the id 2. In general an add keeps the ids
  unique exactly when the numeral of \<open>nodes.length + 1\<close> is not an id in use.
\<close>

theorem add_after_delete_repeats_id:
  "map node_id (addCodeNode (removeNode ''1'' (addCodeNode initialNodes))) = [''2'', ''2'']
   \<and> \<not> distinct (map node_id (addCodeNode (removeNode ''1'' (addCodeNode initialNodes))))"
  by (simp add: addCodeNode_def removeNode_def initialNodes_def toString.simps)

section \<open>The scheduling loop on any graph\<close>

lemma no_count_incr: "no_count v \<Longrightarrow> js_incr v = NaN"
  by (auto simp: no_count_def js_incr_def)

lemma init_tables_dom:
  "init_tables ns (adj, ind) = (adj', ind') \<Longrightarrow>
     fmdom' adj' = fmdom' adj \<union> node_id ` set ns \<and>
     (\<forall>t. t \<notin> node_id ` set ns \<longrightarrow> indegree_get ind' t = indegree_get ind t)"
proof (induction ns arbitrary: adj ind)
  case Nil
  then show ?case by simp
next
  case (Cons n ns)
  from Cons.prems
  have "init_tables ns (fmupd (node_id n) [] adj, indegree_set (node_id n) (Fin 0) ind) = (adj', ind')"
    by simp
  from Cons.IH [OF this] show ?case by (auto simp: indegree_get_set)
qed

lemma add_edges_dom:
  "add_edges es (adj, ind) = Inr (adj', ind') \<Longrightarrow>
     fmdom' adj' = fmdom' adj \<and>
     (\<forall>t. no_count (indegree_get ind t) \<longrightarrow> no_count (indegree_get ind' t))"
proof (induction es arbitrary: adj ind)
  case Nil
  then show ?case by simp
next
  case (Cons e es)
  from Cons.prems obtain ts where ts: "fmlookup adj (source e) = Some ts"
    by (auto split: option.splits)
  let ?adj = "fmupd (source e) (ts @ [target e]) adj"
  let ?ind = "indegree_set (target e) (js_incr (indegree_get ind (target e))) ind"
  from Cons.prems ts have "add_edges es (?adj, ?ind) = Inr (adj', ind')" by simp
  from Cons.IH [OF this]
  have dom: "fmdom' adj' = fmdom' ?adj"
    and cnt: "\<forall>t. no_count (indegree_get ?ind t) \<longrightarrow> no_count (indegree_get ind' t)"
    by simp_all
  have "fmdom' ?adj = fmdom' adj" using ts by (auto simp: fmlookup_dom'_iff)
  moreover have "no_count (indegree_get ind' t)" if "no_count (indegree_get ind t)" for t
  proof -
    have "no_count (indegree_get ?ind t)"
      using that no_count_incr [of "indegree_get ind (target e)"]
      by (auto simp: no_count_def indegree_get_set)
    with cnt show ?thesis by simp
  qed
  ultimately show ?case using dom by simp
qed

lemma add_edges_error: "add_edges es g = Inl err \<Longrightarrow> err = TypeError"
proof (induction es arbitrary: g)
  case Nil
  then show ?case by simp
next
  case (Cons e es)
  obtain adj ind where g: "g = (adj, ind)" by (cases g)
  show ?case
  proof (cases "fmlookup adj (source e)")
    case None
    with Cons.prems g show ?thesis by simp
  next
    case (Some ts)
    with Cons.prems g Cons.IH show ?thesis by simp
  qed
qed

lemma add_edges_undeclared_source:
  "\<exists>e\<in>set es. source e \<notin> fmdom' adj \<Longrightarrow> add_edges es (adj, ind) = Inl TypeError"
proof (induction es arbitrary: adj ind)
  case Nil
  then show ?case by simp
next
  case (Cons e es)
  show ?case
  proof (cases "fmlookup adj (source e)")
    case None
    then show ?thesis by simp
  next
    case (Some ts)
    then have "source e \<in> fmdom' adj" by (simp add: fmlookup_dom'_iff)
    then have same: "fmdom' (fmupd (source e) (ts @ [target e]) adj) = fmdom' adj"
      by auto
    from Cons.prems obtain e' where "e' \<in> set (e # es)" "source e' \<notin> fmdom' adj"
      by blast
    with \<open>source e \<in> fmdom' adj\<close> have "e' \<in> set es" by auto
    with \<open>source e' \<notin> fmdom' adj\<close> same
    have "\<exists>e'\<in>set es. source e' \<notin> fmdom' (fmupd (source e) (ts @ [target e]) adj)"
      by blast
    from Cons.IH [OF this] Some show ?thesis by simp
  qed
qed

lemma build_graph_undeclared_source:
  assumes "\<exists>e\<in>set es. source e \<notin> node_id ` set ns"
  shows "build_graph ns es = Inl TypeError"
proof -
  obtain adj0 ind0 where i: "init_tables ns (fmempty, fmempty) = (adj0, ind0)"
    by (cases "init_tables ns (fmempty, fmempty)")
  from init_tables_dom [OF i] have "fmdom' adj0 = node_id ` set ns" by simp
  with assms have "\<exists>e\<in>set es. source e \<notin> fmdom' adj0" by simp
  from add_edges_undeclared_source [OF this] i show ?thesis
    by (simp add: build_graph_def)
qed

lemma build_graph_dom:
  assumes "build_graph ns es = Inr (adj, ind)"
  shows "fmdom' adj = node_id ` set ns" and "pending ind \<subseteq> node_id ` set ns"
proof -
  obtain adj0 ind0 where i: "init_tables ns (fmempty, fmempty) = (adj0, ind0)"
    by (cases "init_tables ns (fmempty, fmempty)")
  with assms have a: "add_edges es (adj0, ind0) = Inr (adj, ind)"
    by (simp add: build_graph_def)
  from init_tables_dom [OF i]
  have d0: "fmdom' adj0 = node_id ` set ns"
    and c0: "\<forall>t. t \<notin> node_id ` set ns \<longrightarrow> indegree_get ind0 t = None"
    by (simp_all add: indegree_get_def)
  from add_edges_dom [OF a] d0 show "fmdom' adj = node_id ` set ns" by simp
  show "pending ind \<subseteq> node_id ` set ns"
  proof
    fix t assume t: "t \<in> pending ind"
    show "t \<in> node_id ` set ns"
    proof (rule ccontr)
      assume "t \<notin> node_id ` set ns"
      with c0 have "no_count (indegree_get ind0 t)" by (simp add: no_count_def)
      with add_edges_dom [OF a] have "no_count (indegree_get ind t)" by simp
      with t show False by (auto simp: pending_def no_count_def)
    qed
  qed
qed

lemma mset_add_fresh:
  assumes "mset xs \<subseteq># mset ids" and "distinct zs" and "set zs \<subseteq> set ids - set xs"
  shows "mset (xs @ zs) \<subseteq># mset ids"
proof (rule mset_subset_eqI)
  fix x
  show "count (mset (xs @ zs)) x \<le> count (mset ids) x"
  proof (cases "x \<in> set zs")
    case True
    with assms(3) have in_ids: "x \<in> set ids" and not_xs: "x \<notin> set xs" by auto
    have "count (mset xs) x = 0"
      using not_xs by (metis count_eq_zero_iff set_mset_mset)
    moreover have "count (mset ids) x \<noteq> 0"
      using in_ids by (metis count_eq_zero_iff set_mset_mset)
    moreover have "count (mset zs) x = 1"
      using True assms(2) by (simp add: distinct_count_atmost_1)
    moreover have "count (mset (xs @ zs)) x = count (mset xs) x + count (mset zs) x"
      by simp
    ultimately show ?thesis by linarith
  next
    case False
    then have "count (mset zs) x = 0"
      by (metis count_eq_zero_iff set_mset_mset)
    moreover have "count (mset xs) x \<le> count (mset ids) x"
      using assms(1) by (rule mset_subset_eq_count)
    moreover have "count (mset (xs @ zs)) x = count (mset xs) x + count (mset zs) x"
      by simp
    ultimately show ?thesis by linarith
  qed
qed

lemma within_nodes_step:
  assumes inv: "within_nodes ids ind (i # q) order"
    and rel: "relax ts (ind, q) = (ind', q')"
  shows "within_nodes ids ind' q' (order @ [i])"
proof -
  from relax_pending [OF rel] obtain zs where zs:
    "q' = q @ zs" "distinct zs" "set zs \<subseteq> pending ind"
    "pending ind' \<subseteq> pending ind - set zs"
    by blast
  from inv have m: "mset ((order @ [i]) @ q) \<subseteq># mset ids"
    and p: "pending ind \<subseteq> set ids - set ((order @ [i]) @ q)"
    by (simp_all add: within_nodes_def)
  from zs(3) p have "set zs \<subseteq> set ids - set ((order @ [i]) @ q)" by blast
  from mset_add_fresh [OF m zs(2) this]
  have "mset ((order @ [i]) @ q') \<subseteq># mset ids" using zs(1) by simp
  moreover have "pending ind' \<subseteq> set ids - set ((order @ [i]) @ q')"
    using zs(1,4) p by auto
  ultimately show ?thesis by (simp add: within_nodes_def)
qed

lemma kahn_loop_within_nodes:
  assumes "set ids \<subseteq> fmdom' adj" and "within_nodes ids ind q order"
  shows "\<exists>res. kahn_loop adj ind q order = Inr res \<and> mset res \<subseteq># mset ids"
  using assms
proof (induction adj ind q order rule: kahn_loop.induct)
  case (1 adj ind order)
  then show ?case by (simp add: within_nodes_def)
next
  case (2 adj ind i q order)
  from "2.prems"(2) have "i \<in># mset ids"
    by (auto simp: within_nodes_def dest: mset_subset_eqD)
  with "2.prems"(1) have "i \<in> fmdom' adj" by auto
  then obtain ts where ts: "fmlookup adj i = Some ts"
    by (auto simp: fmlookup_dom'_iff)
  obtain ind' q' where rel: "relax ts (ind, q) = (ind', q')"
    by (cases "relax ts (ind, q)")
  from within_nodes_step [OF "2.prems"(2) rel]
  have "within_nodes ids ind' q' (order @ [i])" .
  from "2.IH" [OF ts rel [symmetric] "2.prems"(1) this] ts rel
  show ?case by simp
qed

lemma within_nodes_initial:
  assumes "pending ind \<subseteq> node_id ` set ns"
  shows "within_nodes (map node_id ns) ind (initial_queue ns ind) []"
proof -
  have "initial_queue ns ind =
          filter (\<lambda>i. indegree_get ind i = Some (Fin 0)) (map node_id ns)"
    by (simp add: initial_queue_def filter_map comp_def)
  then have "mset (initial_queue ns ind) \<subseteq># mset (map node_id ns)"
    by (metis mset_filter multiset_filter_subset)
  moreover have "pending ind \<inter> set (initial_queue ns ind) = {}"
    by (auto simp: pending_def initial_queue_def)
  ultimately show ?thesis using assms by (auto simp: within_nodes_def)
qed

section \<open>The tables of a graph whose edges start at declared nodes\<close>

lemma init_tables_lookup:
  "init_tables ns (adj, ind) = (adj', ind') \<Longrightarrow>
     (\<forall>s. fmlookup adj' s = (if s \<in> node_id ` set ns then Some [] else fmlookup adj s)) \<and>
     (\<forall>t. indegree_get ind' t =
            (if t \<in> node_id ` set ns \<and> t \<noteq> ''__proto__'' then Some (Fin 0)
             else indegree_get ind t))"
proof (induction ns arbitrary: adj ind)
  case Nil
  then show ?case by simp
next
  case (Cons n ns)
  from Cons.prems
  have "init_tables ns (fmupd (node_id n) [] adj, indegree_set (node_id n) (Fin 0) ind)
          = (adj', ind')"
    by simp
  from Cons.IH [OF this] show ?case by (auto simp: indegree_get_set)
qed

lemma add_edges_lookup:
  assumes "\<forall>e\<in>set es. source e \<in> fmdom' adj"
  shows "\<exists>adj' ind'. add_edges es (adj, ind) = Inr (adj', ind') \<and>
           (\<forall>s. fmlookup adj' s = map_option (\<lambda>ts. ts @ out_targets es s) (fmlookup adj s)) \<and>
           (\<forall>t c. indegree_get ind t = Some (Fin c) \<longrightarrow>
                  indegree_get ind' t = Some (Fin (c + of_nat (in_count es t))))"
  using assms
proof (induction es arbitrary: adj ind)
  case Nil
  show ?case by (simp add: out_targets_def in_count_def option.map_ident)
next
  case (Cons e es)
  from Cons.prems obtain ts where ts: "fmlookup adj (source e) = Some ts"
    by (auto simp: fmlookup_dom'_iff)
  let ?adj = "fmupd (source e) (ts @ [target e]) adj"
  let ?ind = "indegree_set (target e) (js_incr (indegree_get ind (target e))) ind"
  have "\<forall>e\<in>set es. source e \<in> fmdom' ?adj" using Cons.prems by simp
  from Cons.IH [OF this, of ?ind] obtain adj' ind' where r:
    "add_edges es (?adj, ?ind) = Inr (adj', ind')"
    "\<forall>s. fmlookup adj' s = map_option (\<lambda>ts. ts @ out_targets es s) (fmlookup ?adj s)"
    "\<forall>t c. indegree_get ?ind t = Some (Fin c) \<longrightarrow>
            indegree_get ind' t = Some (Fin (c + of_nat (in_count es t)))"
    by blast
  have a: "fmlookup adj' s = map_option (\<lambda>ts. ts @ out_targets (e # es) s) (fmlookup adj s)" for s
    using r(2) ts by (cases "s = source e") (simp_all add: out_targets_def)
  have b: "indegree_get ind' t = Some (Fin (c + of_nat (in_count (e # es) t)))"
    if "indegree_get ind t = Some (Fin c)" for t c
  proof (cases "t = target e")
    case True
    from that have "t \<noteq> ''__proto__''" by (auto simp: indegree_get_def)
    with True that have "indegree_get ?ind t = Some (Fin (c + 1))"
      by (simp add: js_incr_def indegree_get_set)
    with r(3) have "indegree_get ind' t = Some (Fin (c + 1 + of_nat (in_count es t)))" by blast
    with True show ?thesis by (simp add: in_count_def add.assoc)
  next
    case False
    with that have "indegree_get ?ind t = Some (Fin c)" by (simp add: indegree_get_set)
    with r(3) have "indegree_get ind' t = Some (Fin (c + of_nat (in_count es t)))" by blast
    with False show ?thesis by (simp add: in_count_def)
  qed
  from r(1) ts a b show ?case by simp
qed

lemma build_graph_lookup:
  assumes "\<forall>e\<in>set es. source e \<in> node_id ` set ns"
  shows "\<exists>adj ind. build_graph ns es = Inr (adj, ind) \<and>
           (\<forall>s\<in>node_id ` set ns. fmlookup adj s = Some (out_targets es s)) \<and>
           (\<forall>t\<in>node_id ` set ns. t \<noteq> ''__proto__'' \<longrightarrow>
              indegree_get ind t = Some (Fin (of_nat (in_count es t))))"
proof -
  obtain adj0 ind0 where i: "init_tables ns (fmempty, fmempty) = (adj0, ind0)"
    by (cases "init_tables ns (fmempty, fmempty)")
  from init_tables_lookup [OF i]
  have a0: "\<forall>s. fmlookup adj0 s = (if s \<in> node_id ` set ns then Some [] else None)"
    and i0: "\<forall>t. t \<in> node_id ` set ns \<and> t \<noteq> ''__proto__'' \<longrightarrow>
                 indegree_get ind0 t = Some (Fin 0)"
    by simp_all
  have "\<forall>e\<in>set es. source e \<in> fmdom' adj0"
    using assms a0 by (simp add: fmlookup_dom'_iff)
  from add_edges_lookup [OF this, of ind0] obtain adj ind where r:
    "add_edges es (adj0, ind0) = Inr (adj, ind)"
    "\<forall>s. fmlookup adj s = map_option (\<lambda>ts. ts @ out_targets es s) (fmlookup adj0 s)"
    "\<forall>t c. indegree_get ind0 t = Some (Fin c) \<longrightarrow>
            indegree_get ind t = Some (Fin (c + of_nat (in_count es t)))"
    by blast
  have "build_graph ns es = Inr (adj, ind)" using i r(1) by (simp add: build_graph_def)
  moreover have "\<forall>s\<in>node_id ` set ns. fmlookup adj s = Some (out_targets es s)"
    using r(2) a0 by simp
  moreover have "\<forall>t\<in>node_id ` set ns. t \<noteq> ''__proto__'' \<longrightarrow>
                   indegree_get ind t = Some (Fin (of_nat (in_count es t)))"
  proof (intro ballI impI)
    fix t assume "t \<in> node_id ` set ns" "t \<noteq> ''__proto__''"
    with i0 have "indegree_get ind0 t = Some (Fin 0)" by simp
    with r(3) have "indegree_get ind t = Some (Fin (0 + of_nat (in_count es t)))" by blast
    then show "indegree_get ind t = Some (Fin (of_nat (in_count es t)))" by simp
  qed
  ultimately show ?thesis by blast
qed

section \<open>The inner loop on exact counts\<close>

lemma js_decr_count:
  "0 < n \<Longrightarrow> js_decr (Some (Fin (of_nat n))) = Fin (of_nat (n - 1))"
  by (simp add: js_decr_def js_sub_def of_nat_diff)

lemma relax_counts:
  assumes "\<forall>t\<in>set ts. t \<noteq> ''__proto__'' \<longrightarrow> indegree_get ind t = Some (Fin (of_nat (n t)))"
    and "\<forall>t. count_list ts t \<le> n t"
    and "relax ts (ind, q) = (ind', q')"
  shows "(\<forall>t. indegree_get ind' t =
               (if t \<in> set ts \<and> t \<noteq> ''__proto__''
                then Some (Fin (of_nat (n t - count_list ts t)))
                else indegree_get ind t)) \<and>
         (\<exists>zs. q' = q @ zs \<and> distinct zs \<and>
               (\<forall>t. t \<in> set zs \<longleftrightarrow>
                      t \<in> set ts \<and> t \<noteq> ''__proto__'' \<and> n t = count_list ts t))"
  using assms
proof (induction ts arbitrary: ind q n)
  case Nil
  then show ?case by simp
next
  case (Cons t ts)
  show ?case
  proof (cases "t = ''__proto__''")
    case True
    then have same: "indegree_set t (js_decr (indegree_get ind t)) ind = ind"
      by (simp add: indegree_set_def)
    from True have "indegree_get ind t \<noteq> Some (Fin 0)" by (simp add: indegree_get_def)
    with Cons.prems(3) same have rel: "relax ts (ind, q) = (ind', q')"
      by (simp add: Let_def)
    have p1: "\<forall>u\<in>set ts. u \<noteq> ''__proto__'' \<longrightarrow>
                indegree_get ind u = Some (Fin (of_nat (n u)))"
      using Cons.prems(1) by simp
    have p2: "\<forall>u. count_list ts u \<le> n u"
    proof
      fix u
      from Cons.prems(2) [rule_format, of u] show "count_list ts u \<le> n u"
        by (cases "u = t") simp_all
    qed
    from Cons.IH [OF p1 p2 rel] obtain zs where ih:
      "\<forall>u. indegree_get ind' u =
             (if u \<in> set ts \<and> u \<noteq> ''__proto__''
              then Some (Fin (of_nat (n u - count_list ts u)))
              else indegree_get ind u)"
      "q' = q @ zs" "distinct zs"
      "\<forall>u. u \<in> set zs \<longleftrightarrow> u \<in> set ts \<and> u \<noteq> ''__proto__'' \<and> n u = count_list ts u"
      by blast
    have look: "indegree_get ind' u =
                  (if u \<in> set (t # ts) \<and> u \<noteq> ''__proto__''
                   then Some (Fin (of_nat (n u - count_list (t # ts) u)))
                   else indegree_get ind u)" for u
      using ih(1) [rule_format, of u] True by (cases "u = t") simp_all
    have mem: "u \<in> set zs \<longleftrightarrow>
                 u \<in> set (t # ts) \<and> u \<noteq> ''__proto__'' \<and> n u = count_list (t # ts) u" for u
      using ih(4) [rule_format, of u] True by (cases "u = t") simp_all
    from look mem ih(2,3) show ?thesis by blast
  next
    case proper: False
    from Cons.prems(2) [rule_format, of t] have pos: "0 < n t" by simp
    from Cons.prems(1) proper have lt: "indegree_get ind t = Some (Fin (of_nat (n t)))"
      by simp
    let ?v = "Fin (of_nat (n t - 1)) :: jsnum"
    have v: "js_decr (indegree_get ind t) = ?v" using lt pos by (simp add: js_decr_count)
    have v0: "?v = Fin 0 \<longleftrightarrow> n t = 1" using pos by auto
    let ?n = "n(t := n t - 1)"
    let ?ind = "indegree_set t ?v ind"
    let ?q = "if n t = 1 then q @ [t] else q"
    have reread: "indegree_get ?ind t = Some ?v" using proper by (simp add: indegree_get_set)
    have rel: "relax ts (?ind, ?q) = (ind', q')"
      using Cons.prems(3) v v0 reread by (simp add: Let_def)
    have p1: "\<forall>u\<in>set ts. u \<noteq> ''__proto__'' \<longrightarrow>
                indegree_get ?ind u = Some (Fin (of_nat (?n u)))"
      using Cons.prems(1) by (simp add: indegree_get_set)
    have p2: "\<forall>u. count_list ts u \<le> ?n u"
    proof
      fix u
      from Cons.prems(2) [rule_format, of u] show "count_list ts u \<le> ?n u"
        by (cases "u = t") simp_all
    qed
    from Cons.IH [OF p1 p2 rel] obtain zs where ih:
      "\<forall>u. indegree_get ind' u =
             (if u \<in> set ts \<and> u \<noteq> ''__proto__''
              then Some (Fin (of_nat (?n u - count_list ts u)))
              else indegree_get ?ind u)"
      "q' = ?q @ zs" "distinct zs"
      "\<forall>u. u \<in> set zs \<longleftrightarrow> u \<in> set ts \<and> u \<noteq> ''__proto__'' \<and> ?n u = count_list ts u"
      by blast
    have tz: "t \<in> set zs \<longleftrightarrow> t \<in> set ts \<and> n t - 1 = count_list ts t"
      using ih(4) [rule_format, of t] proper by simp
    have uz: "u \<in> set zs \<longleftrightarrow> u \<in> set ts \<and> u \<noteq> ''__proto__'' \<and> n u = count_list ts u"
      if "u \<noteq> t" for u
      using ih(4) [rule_format, of u] that by simp
    have cnt: "t \<notin> set ts \<Longrightarrow> count_list ts t = 0" by (simp add: count_list_0_iff)
    have look: "indegree_get ind' u =
                  (if u \<in> set (t # ts) \<and> u \<noteq> ''__proto__''
                   then Some (Fin (of_nat (n u - count_list (t # ts) u)))
                   else indegree_get ind u)" for u
    proof (cases "u = t")
      case True
      show ?thesis
      proof (cases "t \<in> set ts")
        case True
        with \<open>u = t\<close> proper ih(1) [rule_format, of t] show ?thesis by simp
      next
        case False
        with \<open>u = t\<close> proper ih(1) [rule_format, of t] cnt reread show ?thesis by simp
      qed
    next
      case False
      with ih(1) [rule_format, of u] show ?thesis by (simp add: indegree_get_set)
    qed
    show ?thesis
    proof (cases "n t = 1")
      case True
      with Cons.prems(2) [rule_format, of t] have c0: "count_list ts t = 0" by simp
      then have nts: "t \<notin> set ts" by (simp add: count_list_0_iff)
      with tz have "t \<notin> set zs" by simp
      with ih(3) have "distinct (t # zs)" by simp
      moreover from True ih(2) have "q' = q @ (t # zs)" by simp
      moreover have "u \<in> set (t # zs) \<longleftrightarrow>
                       u \<in> set (t # ts) \<and> u \<noteq> ''__proto__'' \<and> n u = count_list (t # ts) u"
        for u
      proof (cases "u = t")
        case True
        with \<open>n t = 1\<close> c0 proper show ?thesis by simp
      next
        case False
        with uz [OF False] show ?thesis by simp
      qed
      ultimately show ?thesis using look by blast
    next
      case False
      with ih(2) have "q' = q @ zs" by simp
      moreover have "u \<in> set zs \<longleftrightarrow>
                       u \<in> set (t # ts) \<and> u \<noteq> ''__proto__'' \<and> n u = count_list (t # ts) u"
        for u
      proof (cases "u = t")
        case True
        show ?thesis
        proof (cases "t \<in> set ts")
          case True
          with \<open>u = t\<close> tz pos proper show ?thesis by auto
        next
          case False
          with \<open>u = t\<close> tz cnt \<open>n t \<noteq> 1\<close> show ?thesis by simp
        qed
      next
        case False
        with uz [OF False] show ?thesis by simp
      qed
      ultimately show ?thesis using look ih(3) by blast
    qed
  qed
qed

lemma relax_queue:
  assumes "\<forall>t\<in>set ts. t \<noteq> ''__proto__'' \<longrightarrow> indegree_get ind t = Some (Fin (of_nat (n t)))"
    and "\<forall>t. count_list ts t \<le> n t"
    and "relax ts (ind, q) = (ind', q')"
  shows "q' = q @ filter (\<lambda>t. t \<noteq> ''__proto__'' \<and> n t = count_list ts t) (remdups ts)"
  using assms
proof (induction ts arbitrary: ind q n)
  case Nil
  then show ?case by simp
next
  case (Cons t ts)
  let ?G = "\<lambda>u. u \<noteq> ''__proto__'' \<and> n u = count_list (t # ts) u"
  have cnt: "t \<notin> set ts \<Longrightarrow> count_list ts t = 0" by (simp add: count_list_0_iff)
  show ?case
  proof (cases "t = ''__proto__''")
    case True
    then have same: "indegree_set t (js_decr (indegree_get ind t)) ind = ind"
      by (simp add: indegree_set_def)
    from True have "indegree_get ind t \<noteq> Some (Fin 0)" by (simp add: indegree_get_def)
    with Cons.prems(3) same have rel: "relax ts (ind, q) = (ind', q')"
      by (simp add: Let_def)
    have p1: "\<forall>u\<in>set ts. u \<noteq> ''__proto__'' \<longrightarrow>
                indegree_get ind u = Some (Fin (of_nat (n u)))"
      using Cons.prems(1) by simp
    have p2: "\<forall>u. count_list ts u \<le> n u"
    proof
      fix u
      from Cons.prems(2) [rule_format, of u] show "count_list ts u \<le> n u"
        by (cases "u = t") simp_all
    qed
    let ?F = "\<lambda>u. u \<noteq> ''__proto__'' \<and> n u = count_list ts u"
    from Cons.IH [OF p1 p2 rel] have ih: "q' = q @ filter ?F (remdups ts)" .
    have "filter ?G (remdups ts) = filter ?F (remdups ts)"
      using True by (intro filter_cong) auto
    moreover have "filter ?G (remdups (t # ts)) = filter ?G (remdups ts)"
      using True by simp
    ultimately show ?thesis using ih by simp
  next
    case proper: False
    from Cons.prems(2) [rule_format, of t] have pos: "0 < n t" by simp
    from Cons.prems(1) proper have lt: "indegree_get ind t = Some (Fin (of_nat (n t)))"
      by simp
    let ?v = "Fin (of_nat (n t - 1)) :: jsnum"
    have v: "js_decr (indegree_get ind t) = ?v" using lt pos by (simp add: js_decr_count)
    have v0: "?v = Fin 0 \<longleftrightarrow> n t = 1" using pos by auto
    let ?n = "n(t := n t - 1)"
    let ?ind = "indegree_set t ?v ind"
    let ?q = "if n t = 1 then q @ [t] else q"
    have reread: "indegree_get ?ind t = Some ?v" using proper by (simp add: indegree_get_set)
    have rel: "relax ts (?ind, ?q) = (ind', q')"
      using Cons.prems(3) v v0 reread by (simp add: Let_def)
    have p1: "\<forall>u\<in>set ts. u \<noteq> ''__proto__'' \<longrightarrow>
                indegree_get ?ind u = Some (Fin (of_nat (?n u)))"
      using Cons.prems(1) by (simp add: indegree_get_set)
    have p2: "\<forall>u. count_list ts u \<le> ?n u"
    proof
      fix u
      from Cons.prems(2) [rule_format, of u] show "count_list ts u \<le> ?n u"
        by (cases "u = t") simp_all
    qed
    let ?F = "\<lambda>u. u \<noteq> ''__proto__'' \<and> ?n u = count_list ts u"
    from Cons.IH [OF p1 p2 rel] have ih: "q' = ?q @ filter ?F (remdups ts)" .
    have other: "?G u = ?F u" if "u \<noteq> t" for u using that by simp
    show ?thesis
    proof (cases "t \<in> set ts")
      case True
      then have "count_list ts t \<noteq> 0" by (simp add: count_list_0_iff)
      with Cons.prems(2) [rule_format, of t] have "n t \<noteq> 1" by simp
      with ih have q': "q' = q @ filter ?F (remdups ts)" by simp
      have "?G t = ?F t" using pos by auto
      with other have "?G u = ?F u" for u by (cases "u = t") simp_all
      then have "filter ?G (remdups ts) = filter ?F (remdups ts)" by simp
      moreover have "remdups (t # ts) = remdups ts" using True by simp
      ultimately show ?thesis using q' by simp
    next
      case False
      with cnt have c0: "count_list ts t = 0" by simp
      have "filter ?G (remdups ts) = filter ?F (remdups ts)"
      proof (rule filter_cong [OF refl])
        fix u assume "u \<in> set (remdups ts)"
        with False have "u \<noteq> t" by auto
        then show "?G u = ?F u" by (rule other)
      qed
      moreover have "remdups (t # ts) = t # remdups ts" using False by simp
      moreover have "?G t \<longleftrightarrow> n t = 1" using proper c0 by auto
      ultimately have "filter ?G (remdups (t # ts)) =
                         (if n t = 1 then [t] else []) @ filter ?F (remdups ts)"
        by simp
      with ih show ?thesis by simp
    qed
  qed
qed

lemma releases_from_snoc:
  "releases_from es prev (xs @ [i]) = releases_from es prev xs @ released es (prev @ xs) i"
  by (induction xs arbitrary: prev) simp_all

section \<open>Order of occurrence in a list\<close>

lemma precedes_in_set: "precedes x y xs \<Longrightarrow> x \<in> set xs \<and> y \<in> set xs"
  by (induction xs) (auto split: if_splits)

lemma precedes_append: "precedes x y xs \<Longrightarrow> precedes x y (xs @ ys)"
  by (induction xs) (auto split: if_splits)

lemma precedes_snoc: "x \<in> set xs \<Longrightarrow> precedes x y (xs @ [y])"
  by (induction xs) auto

lemma precedes_irrefl: "distinct xs \<Longrightarrow> \<not> precedes x x xs"
  by (induction xs) auto

lemma precedes_trans:
  "distinct xs \<Longrightarrow> precedes x y xs \<Longrightarrow> precedes y z xs \<Longrightarrow> precedes x z xs"
proof (induction xs)
  case Nil
  then show ?case by simp
next
  case (Cons w ws)
  show ?case
  proof (cases "w = x")
    case True
    with Cons.prems have "y \<in> set ws" "y \<noteq> x" by auto
    with Cons.prems True have "precedes y z ws" by simp
    then have "z \<in> set ws" by (simp add: precedes_in_set)
    with True show ?thesis by simp
  next
    case False
    with Cons.prems have xy: "precedes x y ws" by simp
    then have "y \<in> set ws" by (simp add: precedes_in_set)
    with Cons.prems have "w \<noteq> y" by auto
    with Cons.prems have "precedes y z ws" by simp
    with Cons xy False show ?thesis by simp
  qed
qed

lemma precedes_after:
  "distinct (ps @ x # ds) \<Longrightarrow> precedes x y (ps @ x # ds) \<Longrightarrow> y \<in> set ds"
  by (induction ps) (auto split: if_splits)

lemma precedes_split:
  "precedes x y xs \<Longrightarrow> \<exists>as bs cs. xs = as @ x # bs @ y # cs"
proof (induction xs)
  case Nil
  then show ?case by simp
next
  case (Cons w ws)
  show ?case
  proof (cases "w = x")
    case True
    with Cons.prems have "y \<in> set ws" by simp
    then obtain bs cs where "ws = bs @ y # cs" by (auto dest: split_list)
    with True have "w # ws = [] @ x # bs @ y # cs" by simp
    then show ?thesis by blast
  next
    case False
    with Cons.prems have "precedes x y ws" by simp
    from Cons.IH [OF this] obtain as bs cs where "ws = as @ x # bs @ y # cs" by blast
    then have "w # ws = (w # as) @ x # bs @ y # cs" by simp
    then show ?thesis by blast
  qed
qed

lemma precedes_iff_split:
  assumes "distinct xs"
  shows "precedes x y xs \<longleftrightarrow> (\<exists>as bs cs. xs = as @ x # bs @ y # cs)"
proof
  assume "precedes x y xs"
  then show "\<exists>as bs cs. xs = as @ x # bs @ y # cs" by (rule precedes_split)
next
  assume "\<exists>as bs cs. xs = as @ x # bs @ y # cs"
  then obtain as bs cs where xs: "xs = as @ x # bs @ y # cs" by blast
  with assms have "x \<notin> set as" by simp
  then have "precedes x y (as @ x # bs @ y # cs)" by (induction as) auto
  with xs show "precedes x y xs" by simp
qed

section \<open>The invariant of the scheduling loop on a well-formed graph\<close>

lemma remaining_snoc:
  "i \<notin> set order \<Longrightarrow>
     remaining es order t = remaining es (order @ [i]) t + count_list (out_targets es i) t"
  by (induction es) (auto simp: remaining_def out_targets_def)

lemma remaining_zero:
  "remaining es order t = 0 \<longleftrightarrow> (\<forall>e\<in>set es. target e = t \<longrightarrow> source e \<in> set order)"
  by (auto simp: remaining_def filter_empty_conv)

lemma remaining_Nil: "remaining es [] t = in_count es t"
  by (simp add: remaining_def in_count_def)

lemma topo_inv_step:
  assumes tg: "\<forall>e\<in>set es. target e \<in> K \<or> target e = ''__proto__''"
    and inv: "topo_inv K es ind (i # q) order"
    and rel: "relax (out_targets es i) (ind, q) = (ind', q')"
  shows "topo_inv K es ind' q' (order @ [i])"
proof -
  let ?ts = "out_targets es i"
  let ?n = "remaining es order"
  let ?n' = "remaining es (order @ [i])"
  from inv have d: "distinct (order @ i # q)" and sub: "set (order @ i # q) \<subseteq> K"
    and cnt: "\<forall>t\<in>K. indegree_get ind t = Some (Fin (of_nat (?n t)))"
    and zero: "\<forall>t\<in>K. t \<in> set (order @ i # q) \<longleftrightarrow> ?n t = 0"
    and pre: "\<forall>e\<in>set es. target e \<in> set order \<longrightarrow> precedes (source e) (target e) order"
    by (simp_all add: topo_inv_def)
  from d have i_new: "i \<notin> set order" by simp
  have split: "?n t = ?n' t + count_list ?ts t" for t
    using remaining_snoc [OF i_new] .
  have ts_ids: "t \<in> K" if "t \<in> set ?ts" "t \<noteq> ''__proto__''" for t
    using tg that by (auto simp: out_targets_def)
  have p1: "\<forall>t\<in>set ?ts. t \<noteq> ''__proto__'' \<longrightarrow>
              indegree_get ind t = Some (Fin (of_nat (?n t)))"
    using cnt ts_ids by blast
  have p2: "\<forall>t. count_list ?ts t \<le> ?n t" using split by simp
  from relax_counts [OF p1 p2 rel] obtain zs where r:
    "\<forall>t. indegree_get ind' t =
           (if t \<in> set ?ts \<and> t \<noteq> ''__proto__''
            then Some (Fin (of_nat (?n t - count_list ?ts t)))
            else indegree_get ind t)"
    "q' = q @ zs" "distinct zs"
    "\<forall>t. t \<in> set zs \<longleftrightarrow> t \<in> set ?ts \<and> t \<noteq> ''__proto__'' \<and> ?n t = count_list ?ts t"
    by blast
  have n'_eq: "?n' t = ?n t - count_list ?ts t" for t using split [of t] by simp
  have zs_iff: "t \<in> set zs \<longleftrightarrow>
                  t \<in> set ?ts \<and> t \<noteq> ''__proto__'' \<and> ?n t = count_list ?ts t" for t
    using r(4) by blast
  have zs_K: "t \<in> K" if "t \<in> set zs" for t
    using that zs_iff [of t] ts_ids by blast
  have zs_new: "t \<notin> set (order @ i # q)" if "t \<in> set zs" for t
  proof -
    from that zs_iff have "t \<in> set ?ts" "?n t = count_list ?ts t" by simp_all
    then have "?n t \<noteq> 0" by (simp add: count_list_0_iff)
    with zs_K [OF that] show ?thesis using zero by auto
  qed
  have c1: "distinct ((order @ [i]) @ q')"
    using d r(2,3) zs_new by auto
  have c2: "set ((order @ [i]) @ q') \<subseteq> K"
    using sub r(2) zs_K by auto
  have c3: "\<forall>t\<in>K. indegree_get ind' t = Some (Fin (of_nat (?n' t)))"
  proof
    fix t assume t: "t \<in> K"
    from cnt t have some: "indegree_get ind t = Some (Fin (of_nat (?n t)))" by simp
    then have np: "t \<noteq> ''__proto__''" by (auto simp: indegree_get_def)
    show "indegree_get ind' t = Some (Fin (of_nat (?n' t)))"
    proof (cases "t \<in> set ?ts")
      case True
      with np r(1) [rule_format, of t] show ?thesis by (simp add: n'_eq)
    next
      case False
      then have "count_list ?ts t = 0" by (simp add: count_list_0_iff)
      with False r(1) [rule_format, of t] some show ?thesis by (simp add: n'_eq)
    qed
  qed
  have c4: "\<forall>t\<in>K. t \<in> set ((order @ [i]) @ q') \<longleftrightarrow> ?n' t = 0"
  proof
    fix t assume t: "t \<in> K"
    from cnt t have "indegree_get ind t = Some (Fin (of_nat (?n t)))" by simp
    then have np: "t \<noteq> ''__proto__''" by (auto simp: indegree_get_def)
    have "?n' t = 0 \<longleftrightarrow> ?n t = count_list ?ts t"
      using split [of t] by auto
    also have "\<dots> \<longleftrightarrow> ?n t = 0 \<or> t \<in> set zs"
    proof (cases "t \<in> set ?ts")
      case True
      then have "count_list ?ts t \<noteq> 0" by (simp add: count_list_0_iff)
      with True np zs_iff [of t] p2 [rule_format, of t] show ?thesis by auto
    next
      case False
      then have "count_list ?ts t = 0" by (simp add: count_list_0_iff)
      with False zs_iff [of t] show ?thesis by auto
    qed
    also have "\<dots> \<longleftrightarrow> t \<in> set ((order @ [i]) @ q')"
      using zero [rule_format, OF t] r(2) by auto
    finally show "t \<in> set ((order @ [i]) @ q') \<longleftrightarrow> ?n' t = 0" by blast
  qed
  have c5: "\<forall>e\<in>set es. target e \<in> set (order @ [i]) \<longrightarrow>
              precedes (source e) (target e) (order @ [i])"
  proof (intro ballI impI)
    fix e assume e: "e \<in> set es" and te: "target e \<in> set (order @ [i])"
    show "precedes (source e) (target e) (order @ [i])"
    proof (cases "target e \<in> set order")
      case True
      with pre e show ?thesis by (simp add: precedes_append)
    next
      case False
      with te have ti: "target e = i" by simp
      from sub have "i \<in> K" by simp
      with zero have "?n i = 0" by auto
      with e ti have "source e \<in> set order" by (simp add: remaining_zero)
      with ti show ?thesis by (simp add: precedes_snoc)
    qed
  qed
  from c1 c2 c3 c4 c5 show ?thesis unfolding topo_inv_def by (intro conjI)
qed

lemma relax_released:
  assumes tg: "\<forall>e\<in>set es. target e \<in> K \<or> target e = ''__proto__''"
    and inv: "topo_inv K es ind (i # q) order"
    and rel: "relax (out_targets es i) (ind, q) = (ind', q')"
  shows "q' = q @ released es order i"
proof -
  let ?ts = "out_targets es i"
  let ?n = "remaining es order"
  from inv have d: "distinct (order @ i # q)"
    and cnt: "\<forall>t\<in>K. indegree_get ind t = Some (Fin (of_nat (?n t)))"
    by (simp_all add: topo_inv_def)
  from d have i_new: "i \<notin> set order" by simp
  have ts_ids: "t \<in> K" if "t \<in> set ?ts" "t \<noteq> ''__proto__''" for t
    using tg that by (auto simp: out_targets_def)
  have p1: "\<forall>t\<in>set ?ts. t \<noteq> ''__proto__'' \<longrightarrow>
              indegree_get ind t = Some (Fin (of_nat (?n t)))"
    using cnt ts_ids by blast
  have p2: "\<forall>t. count_list ?ts t \<le> ?n t" using remaining_snoc [OF i_new] by simp
  from relax_queue [OF p1 p2 rel] show ?thesis by (simp add: released_def)
qed

lemma kahn_loop_topo:
  assumes "\<forall>e\<in>set es. target e \<in> K \<or> target e = ''__proto__''"
    and "\<forall>s\<in>K. fmlookup adj s = Some (out_targets es s)"
    and "topo_inv K es ind q order"
    and "order @ q = q0 @ releases_from es [] order"
  shows "\<exists>res ind'. kahn_loop adj ind q order = Inr res \<and> topo_inv K es ind' [] res
           \<and> res = q0 @ releases_from es [] res"
  using assms
proof (induction adj ind q order rule: kahn_loop.induct)
  case (1 adj ind order)
  then show ?case by auto
next
  case (2 adj ind i q order)
  from "2.prems"(3) have "i \<in> K" by (simp add: topo_inv_def)
  with "2.prems"(2) have ts: "fmlookup adj i = Some (out_targets es i)" by simp
  obtain ind' q' where rel: "relax (out_targets es i) (ind, q) = (ind', q')"
    by (cases "relax (out_targets es i) (ind, q)")
  from topo_inv_step [OF "2.prems"(1,3) rel]
  have inv': "topo_inv K es ind' q' (order @ [i])" .
  from relax_released [OF "2.prems"(1,3) rel] have q': "q' = q @ released es order i" .
  have "(order @ [i]) @ q' = (order @ i # q) @ released es order i" using q' by simp
  also have "\<dots> = q0 @ releases_from es [] order @ released es order i"
    using "2.prems"(4) by simp
  also have "\<dots> = q0 @ releases_from es [] (order @ [i])"
    by (simp add: releases_from_snoc)
  finally have fifo: "(order @ [i]) @ q' = q0 @ releases_from es [] (order @ [i])" .
  from "2.IH" [OF ts rel [symmetric] "2.prems"(1,2) inv' fifo]
  obtain res ind'' where r: "kahn_loop adj ind' q' (order @ [i]) = Inr res"
    "topo_inv K es ind'' [] res" "res = q0 @ releases_from es [] res"
    by blast
  with ts rel show ?case by auto
qed

lemma topo_inv_initial:
  assumes "distinct (map node_id ns)"
    and "\<forall>t\<in>node_id ` set ns. t \<noteq> ''__proto__'' \<longrightarrow>
           indegree_get ind t = Some (Fin (of_nat (in_count es t)))"
  shows "topo_inv (node_id ` set ns - {''__proto__''}) es ind (initial_queue ns ind) []"
    and "initial_queue ns ind =
           filter (\<lambda>i. i \<noteq> ''__proto__'' \<and> in_count es i = 0) (map node_id ns)"
proof -
  have "initial_queue ns ind =
          filter (\<lambda>i. indegree_get ind i = Some (Fin 0)) (map node_id ns)"
    by (simp add: initial_queue_def filter_map comp_def)
  also have "\<dots> = filter (\<lambda>i. i \<noteq> ''__proto__'' \<and> in_count es i = 0) (map node_id ns)"
  proof (rule filter_cong [OF refl])
    fix i assume "i \<in> set (map node_id ns)"
    with assms(2) show "(indegree_get ind i = Some (Fin 0)) =
                          (i \<noteq> ''__proto__'' \<and> in_count es i = 0)"
      by (cases "i = ''__proto__''") (auto simp: indegree_get_def)
  qed
  finally show q: "initial_queue ns ind =
                     filter (\<lambda>i. i \<noteq> ''__proto__'' \<and> in_count es i = 0) (map node_id ns)" .
  have d: "distinct (initial_queue ns ind)" unfolding q using assms(1) by simp
  have "\<forall>t\<in>node_id ` set ns - {''__proto__''}.
          t \<in> set (initial_queue ns ind) \<longleftrightarrow> in_count es t = 0"
    unfolding q by auto
  moreover have "set (initial_queue ns ind) \<subseteq> node_id ` set ns - {''__proto__''}"
    unfolding q by auto
  ultimately show "topo_inv (node_id ` set ns - {''__proto__''}) es ind (initial_queue ns ind) []"
    unfolding topo_inv_def using d assms(2) by (auto simp: remaining_Nil)
qed

section \<open>The schedule of a well-formed graph\<close>

lemma schedule_well_formed:
  assumes "distinct (map node_id ns)"
    and "\<forall>e\<in>set es. source e \<in> node_id ` set ns \<and> target e \<in> node_id ` set ns"
  shows "\<exists>order ind'. schedule ns es = Inr order
           \<and> topo_inv (node_id ` set ns - {''__proto__''}) es ind' [] order
           \<and> order =
               filter (\<lambda>i. i \<noteq> ''__proto__'' \<and> in_count es i = 0) (map node_id ns)
               @ releases_from es [] order"
proof -
  let ?K = "node_id ` set ns - {''__proto__''}"
  from assms(2) have src: "\<forall>e\<in>set es. source e \<in> node_id ` set ns" by blast
  from build_graph_lookup [OF src] obtain adj ind where b:
    "build_graph ns es = Inr (adj, ind)"
    "\<forall>s\<in>node_id ` set ns. fmlookup adj s = Some (out_targets es s)"
    "\<forall>t\<in>node_id ` set ns. t \<noteq> ''__proto__'' \<longrightarrow>
       indegree_get ind t = Some (Fin (of_nat (in_count es t)))"
    by blast
  have tg: "\<forall>e\<in>set es. target e \<in> ?K \<or> target e = ''__proto__''" using assms(2) by blast
  have ad: "\<forall>s\<in>?K. fmlookup adj s = Some (out_targets es s)"
    using b(2) by blast
  have start: "[] @ initial_queue ns ind = initial_queue ns ind @ releases_from es [] []"
    by simp
  from kahn_loop_topo [OF tg ad topo_inv_initial(1) [OF assms(1) b(3)] start]
  obtain res ind' where r:
    "kahn_loop adj ind (initial_queue ns ind) [] = Inr res"
    "topo_inv ?K es ind' [] res"
    "res = initial_queue ns ind @ releases_from es [] res"
    by blast
  from r(3) topo_inv_initial(2) [OF assms(1) b(3)]
  have "res = filter (\<lambda>i. i \<noteq> ''__proto__'' \<and> in_count es i = 0) (map node_id ns)
                @ releases_from es [] res"
    by simp
  moreover have "schedule ns es = Inr res" using b(1) r(1) by (simp add: schedule_def)
  ultimately show ?thesis using r(2) by blast
qed

lemma precedes_along_path:
  assumes "distinct order"
    and "\<forall>e\<in>set es. target e \<in> set order \<longrightarrow> precedes (source e) (target e) order"
    and "(x, y) \<in> (edge_rel es)\<^sup>+" and "y \<in> set order"
  shows "precedes x y order"
  using assms(3,4)
proof (induction rule: trancl_induct)
  case (base y)
  with assms(2) show ?case by (auto simp: edge_rel_def)
next
  case (step y z)
  from step.hyps(2) step.prems assms(2) have yz: "precedes y z order"
    by (auto simp: edge_rel_def)
  then have "y \<in> set order" by (simp add: precedes_in_set)
  from precedes_trans [OF assms(1) step.IH [OF this] yz] show ?case .
qed

lemma chain_order:
  assumes "distinct order" and "set order = {x, y, z}"
    and "precedes x y order" and "precedes y z order"
  shows "order = [x, y, z]"
proof -
  from precedes_split [OF assms(3)] obtain as bs cs where
    o1: "order = as @ x # bs @ y # cs" by blast
  then have o1': "order = (as @ x # bs) @ y # cs" by simp
  from precedes_after [of "as @ x # bs" y cs z] assms(1,4) o1'
  have "z \<in> set cs" by simp
  then obtain ds es where "cs = ds @ z # es" by (auto dest: split_list)
  with o1 have o2: "order = as @ x # bs @ y # ds @ z # es" by simp
  have "length order = card (set order)" using assms(1) by (simp add: distinct_card)
  also have "\<dots> \<le> 3" unfolding assms(2) by (simp add: card_insert_if)
  finally have "length order \<le> 3" .
  with o2 have "as = []" "bs = []" "ds = []" "es = []" by simp_all
  with o2 show ?thesis by simp
qed

lemma acyclic_all_scheduled:
  assumes "acyclic (edge_rel es)"
    and "\<forall>e\<in>set es. source e \<in> set ids"
    and "set order \<subseteq> set ids"
    and "\<forall>t\<in>set ids. t \<in> set order \<longleftrightarrow> remaining es order t = 0"
  shows "set order = set ids"
proof (rule ccontr)
  assume "set order \<noteq> set ids"
  with assms(3) obtain u where u: "u \<in> set ids - set order" by blast
  have "finite (edge_rel es)" by (simp add: edge_rel_def)
  then have "wf (edge_rel es)" using assms(1) by (rule finite_acyclic_wf)
  from wfE_min [OF this u] obtain z where z: "z \<in> set ids - set order"
    "\<And>y. (y, z) \<in> edge_rel es \<Longrightarrow> y \<notin> set ids - set order"
    by blast
  from z(1) assms(4) have "remaining es order z \<noteq> 0" by auto
  then obtain e where e: "e \<in> set es" "target e = z" "source e \<notin> set order"
    by (auto simp: remaining_zero)
  from e(1,2) have "(source e, z) \<in> edge_rel es" by (auto simp: edge_rel_def)
  from z(2) [OF this] e(1,3) assms(2) show False by auto
qed

section \<open>What a run leaves unchanged\<close>

lemma execute_node_keeps:
  "execute_node h n = Next n' out \<Longrightarrow> node_id n' = node_id n \<and> others n' = others n"
  by (auto simp: execute_node_def split: node_data.splits script_outcome.splits
        log_outcome.splits sum.splits fetch_outcome.splits)

lemma run_nodes_untouched:
  "\<forall>i\<in>set order. nm i \<noteq> Some k \<Longrightarrow>
     nodes (final_flow (run_nodes hs nm order st)) ! k = nodes st ! k"
proof (induction order arbitrary: st hs)
  case Nil
  then show ?case by simp
next
  case (Cons i order)
  then show ?case
    by (auto split: option.splits node_step.splits)
qed

lemma run_nodes_keeps:
  "length (nodes (final_flow (run_nodes hs nm order st))) = length (nodes st) \<and>
   (\<forall>k<length (nodes st).
      lastError (nodes (final_flow (run_nodes hs nm order st)) ! k) = lastError (nodes st ! k))"
proof (induction order arbitrary: st hs)
  case Nil
  then show ?case by simp
next
  case (Cons i order)
  show ?case
  proof (cases "nm i")
    case None
    with Cons.IH [of "hs \<circ> Suc" st] show ?thesis by (simp add: comp_def)
  next
    case (Some j)
    show ?thesis
    proof (cases "execute_node (hs 0) (nodes st ! j)")
      case (Next n' out)
      let ?st = "st\<lparr>nodes := (nodes st)[j := n'], console := console st @ out\<rparr>"
      from execute_node_keeps [OF Next] have "lastError n' = lastError (nodes st ! j)"
        by (simp add: lastError_def)
      then have "\<forall>k<length (nodes st). lastError (nodes ?st ! k) = lastError (nodes st ! k)"
        by (cases "j < length (nodes st)") (auto simp: nth_list_update)
      with Cons.IH [of "hs \<circ> Suc" ?st] Some Next show ?thesis by (simp add: comp_def)
    qed (use Some in simp_all)
  qed
qed

lemma nodeMap_Some:
  "nodeMap ns i = Some k \<Longrightarrow> k < length ns \<and> node_id (ns ! k) = i"
proof -
  assume "nodeMap ns i = Some k"
  then have "(i, k) \<in> set (zip (map node_id ns) [0..<length ns])"
    by (auto simp: nodeMap_def dest: map_of_SomeD)
  then show ?thesis by (auto simp: in_set_zip)
qed

section \<open>Scheduling\<close>

text \<open>
  C10: for every finite graph, cyclic ones included, the scheduling loop terminates,
  each node is enqueued at most once and the loop runs at most one iteration per node.
  Either building the tables throws (an edge starts at an undeclared id) and the loop
  is never entered, or the loop returns an order; as a multiset that order is part of
  the declared ids, so no id is dequeued more often than nodes declare it and the
  iterations, one per entry of the order, are at most the number of nodes.
\<close>

theorem scheduling_loop_is_bounded:
  "(build_graph ns es = Inl TypeError \<and> schedule ns es = Inl TypeError) \<or>
   (\<exists>adj ind order.
      build_graph ns es = Inr (adj, ind) \<and>
      kahn_loop adj ind (initial_queue ns ind) [] = Inr order \<and>
      schedule ns es = Inr order \<and>
      mset order \<subseteq># mset (map node_id ns) \<and>
      length order \<le> length ns)"
proof (cases "build_graph ns es")
  case (Inl err)
  then have "err = TypeError"
    using add_edges_error by (simp add: build_graph_def)
  with Inl show ?thesis by (simp add: schedule_def)
next
  case (Inr g)
  obtain adj ind where g: "g = (adj, ind)" by (cases g)
  with Inr have b: "build_graph ns es = Inr (adj, ind)" by simp
  from build_graph_dom [OF b]
  have d: "set (map node_id ns) \<subseteq> fmdom' adj" and p: "pending ind \<subseteq> node_id ` set ns"
    by simp_all
  from kahn_loop_within_nodes [OF d within_nodes_initial [OF p]]
  obtain order where o: "kahn_loop adj ind (initial_queue ns ind) [] = Inr order"
    "mset order \<subseteq># mset (map node_id ns)"
    by blast
  from o(2) have "size (mset order) \<le> size (mset (map node_id ns))"
    by (rule size_mset_mono)
  then have "length order \<le> length ns" by simp
  moreover have "schedule ns es = Inr order" using b o(1) by (simp add: schedule_def)
  ultimately show ?thesis using b o by blast
qed

lemma proto_never_scheduled:
  assumes "distinct (map node_id ns)"
    and "\<forall>e\<in>set es. source e \<in> node_id ` set ns \<and> target e \<in> node_id ` set ns"
  shows "\<exists>order. schedule ns es = Inr order \<and> ''__proto__'' \<notin> set order"
proof -
  from schedule_well_formed [OF assms] obtain order ind' where o:
    "schedule ns es = Inr order"
    "topo_inv (node_id ` set ns - {''__proto__''}) es ind' [] order"
    by blast
  from o(2) have "set order \<subseteq> node_id ` set ns - {''__proto__''}"
    by (simp add: topo_inv_def)
  with o(1) show ?thesis by blast
qed

text \<open>
  C7, as the claim states it, fails in two ways. Ties that arise during the run are not
  broken by declaration order: with the nodes \<open>A\<close>, \<open>B\<close>, \<open>C\<close> declared in this order
  and the edges \<open>A \<rightarrow> C\<close>, \<open>A \<rightarrow> B\<close>, both \<open>B\<close> and \<open>C\<close> become ready when \<open>A\<close> is
  dequeued, and \<open>C\<close> comes first because its edge does. And a node whose id is
  \<open>__proto__\<close> is not in the order at all (\<open>indegree\<close> is a plain object): of the two
  nodes \<open>__proto__\<close> and \<open>B\<close> without edges only \<open>B\<close> is scheduled.
\<close>

theorem schedule_counterexample:
  "schedule [plain ''A'', plain ''B'', plain ''C''] [arrow ''A'' ''C'', arrow ''A'' ''B'']
     = Inr [''A'', ''C'', ''B'']
   \<and> schedule [plain ''__proto__'', plain ''B''] [] = Inr [''B'']"
  by (simp add: schedule_def build_graph_def initial_queue_def indegree_get_def
        indegree_set_def plain_def arrow_def js_incr_def js_decr_def js_sub_def Let_def)

text \<open>
  C7, amended: for every acyclic graph (unique ids, edges between declared nodes) in
  which no node has the id \<open>__proto__\<close>, the order the scheduler computes contains
  every node exactly once, and the source of every edge precedes its target. The
  order depends on the node list and the edge list only. It starts with the nodes
  that have no incoming edge, in declaration order, and goes on, first in, first
  out, with the nodes that each node of the order in turn makes ready (the targets
  whose last incoming edge from a node not yet dequeued comes from it), in the order
  of that node's edges. For a chain \<open>x \<rightarrow> y \<rightarrow> z\<close> with no other nodes or edges the
  order is \<open>[x, y, z]\<close>, whatever the declaration order.
\<close>

theorem schedule_is_topological:
  assumes "distinct (map node_id ns)"
    and "\<forall>e\<in>set es. source e \<in> node_id ` set ns \<and> target e \<in> node_id ` set ns"
    and "acyclic (edge_rel es)"
    and "''__proto__'' \<notin> node_id ` set ns"
  shows "\<exists>order. schedule ns es = Inr order
           \<and> distinct order \<and> set order = node_id ` set ns
           \<and> (\<forall>e\<in>set es. precedes (source e) (target e) order)
           \<and> order = filter (\<lambda>i. in_count es i = 0) (map node_id ns)
                       @ releases_from es [] order
           \<and> (\<forall>x y z. map (\<lambda>e. (source e, target e)) es = [(x, y), (y, z)]
                        \<and> node_id ` set ns = {x, y, z} \<longrightarrow> order = [x, y, z])"
proof -
  let ?ids = "map node_id ns"
  from assms(4) have K: "node_id ` set ns - {''__proto__''} = set ?ids" by simp
  from schedule_well_formed [OF assms(1,2)] obtain order ind' where o:
    "schedule ns es = Inr order" "topo_inv (set ?ids) es ind' [] order"
    "order = filter (\<lambda>i. i \<noteq> ''__proto__'' \<and> in_count es i = 0) ?ids
               @ releases_from es [] order"
    unfolding K by blast
  have np: "i \<noteq> ''__proto__''" if "i \<in> set ?ids" for i
    using that assms(4) by (metis list.set_map)
  have "filter (\<lambda>i. i \<noteq> ''__proto__'' \<and> in_count es i = 0) ?ids
          = filter (\<lambda>i. in_count es i = 0) ?ids"
    by (rule filter_cong [OF refl]) (simp add: np del: set_map)
  with o(3) have fifo: "order = filter (\<lambda>i. in_count es i = 0) ?ids
                          @ releases_from es [] order"
    by simp
  from o(2) have d: "distinct order" and sub: "set order \<subseteq> set ?ids"
    and zero: "\<forall>t\<in>set ?ids. t \<in> set order \<longleftrightarrow> remaining es order t = 0"
    and pre: "\<forall>e\<in>set es. target e \<in> set order \<longrightarrow> precedes (source e) (target e) order"
    by (simp_all add: topo_inv_def)
  have src: "\<forall>e\<in>set es. source e \<in> set ?ids" using assms(2) by simp
  from acyclic_all_scheduled [OF assms(3) src sub zero]
  have all: "set order = node_id ` set ns" by simp
  have edges: "\<forall>e\<in>set es. precedes (source e) (target e) order"
  proof
    fix e assume e: "e \<in> set es"
    with assms(2) have "target e \<in> node_id ` set ns" by simp
    with all have "target e \<in> set order" by simp
    with pre e show "precedes (source e) (target e) order" by simp
  qed
  have chain: "order = [x, y, z]"
    if m: "map (\<lambda>e. (source e, target e)) es = [(x, y), (y, z)]"
      and s: "node_id ` set ns = {x, y, z}" for x y z
  proof -
    from m obtain e1 es1 where e1: "es = e1 # es1" "(source e1, target e1) = (x, y)"
      "map (\<lambda>e. (source e, target e)) es1 = [(y, z)]"
      by (auto simp: map_eq_Cons_conv)
    from e1(3) obtain e2 where e2: "es1 = [e2]" "(source e2, target e2) = (y, z)"
      by (auto simp: map_eq_Cons_conv)
    from edges e1(1) have "precedes (source e1) (target e1) order" by simp
    with e1(2) have p1: "precedes x y order" by simp
    from edges e1(1) e2(1) have "precedes (source e2) (target e2) order" by simp
    with e2(2) have p2: "precedes y z order" by simp
    from all s have "set order = {x, y, z}" by simp
    from chain_order [OF d this p1 p2] show ?thesis .
  qed
  have chain': "\<forall>x y z. map (\<lambda>e. (source e, target e)) es = [(x, y), (y, z)]
                        \<and> node_id ` set ns = {x, y, z} \<longrightarrow> order = [x, y, z]"
  proof (intro allI impI)
    fix x y z
    assume h: "map (\<lambda>e. (source e, target e)) es = [(x, y), (y, z)]
               \<and> node_id ` set ns = {x, y, z}"
    from chain [OF conjunct1 [OF h] conjunct2 [OF h]] show "order = [x, y, z]" .
  qed
  show ?thesis
    by (intro exI [of _ order] conjI o(1) d all edges fifo chain')
qed

theorem schedule_is_topological_witness:
  "distinct (map node_id [plain ''C'', plain ''B'', plain ''A''])
   \<and> source (arrow ''B'' ''C'') \<in> node_id ` set [plain ''C'', plain ''B'', plain ''A'']
   \<and> target (arrow ''B'' ''C'') \<in> node_id ` set [plain ''C'', plain ''B'', plain ''A'']
   \<and> source (arrow ''A'' ''B'') \<in> node_id ` set [plain ''C'', plain ''B'', plain ''A'']
   \<and> target (arrow ''A'' ''B'') \<in> node_id ` set [plain ''C'', plain ''B'', plain ''A'']
   \<and> acyclic (edge_rel [arrow ''B'' ''C'', arrow ''A'' ''B''])
   \<and> ''__proto__'' \<notin> node_id ` set [plain ''C'', plain ''B'', plain ''A'']
   \<and> schedule [plain ''C'', plain ''B'', plain ''A''] [arrow ''B'' ''C'', arrow ''A'' ''B'']
       = Inr [''A'', ''B'', ''C'']"
proof -
  let ?ns = "[plain ''C'', plain ''B'', plain ''A'']"
  let ?es = "[arrow ''B'' ''C'', arrow ''A'' ''B'']"
  have d: "distinct (map node_id ?ns)" by (simp add: plain_def)
  have e: "\<forall>e\<in>set ?es. source e \<in> node_id ` set ?ns \<and> target e \<in> node_id ` set ?ns"
    by (simp add: plain_def arrow_def)
  have "acyclic ({} :: (string \<times> string) set)" by (simp add: acyclic_def)
  then have a: "acyclic (edge_rel ?es)"
    by (simp add: edge_rel_def arrow_def rtrancl_insert)
  have p: "''__proto__'' \<notin> node_id ` set ?ns" by (simp add: plain_def)
  from schedule_is_topological [OF d e a p] obtain order where o:
    "schedule ?ns ?es = Inr order"
    "set order = node_id ` set ?ns"
    "\<forall>e\<in>set ?es. precedes (source e) (target e) order"
    "distinct order"
    by blast
  from o(2) have s: "set order = {''A'', ''B'', ''C''}" by (auto simp: plain_def)
  from o(3) have "precedes ''A'' ''B'' order" "precedes ''B'' ''C'' order"
    by (simp_all add: arrow_def)
  from chain_order [OF o(4) s this] o(1) d e a p show ?thesis by simp
qed

text \<open>
  C1, as the claim states it, fails: with the cycle \<open>B \<rightarrow> C \<rightarrow> B\<close> in the graph the
  run is fulfilled without any error, and the arithmetic node \<open>A\<close> outside the cycle
  is executed: its \<open>result\<close> changes from \<open>null\<close> to 18.
\<close>

theorem cycle_counterexample:
  "executeFlow (steady offline_host) [six_times_three, plain ''B'', plain ''C'']
     [arrow ''B'' ''C'', arrow ''C'' ''B''] =
   Fulfilled
     \<lparr>nodes = [six_times_three\<lparr>data := Arithmetic (Fin 6) (Fin 3) Times (Some (Fin 18))\<rparr>,
               plain ''B'', plain ''C''],
      console = []\<rparr>"
  by (simp add: executeFlow_def schedule_def build_graph_def initial_queue_def nodeMap_def
        indegree_get_def indegree_set_def execute_node_def eval_arith_def
        six_times_three_def plain_def arrow_def steady_def
        js_incr_def js_decr_def js_sub_def Let_def)

text \<open>
  C1, amended: for every graph with unique ids and edges between declared nodes, and
  every node \<open>c\<close> on a cycle of it: the scheduler returns an order, without an
  exception, and \<open>c\<close> is not in that order; running the flow is running the nodes of
  that order one after the other, with the outcome which that has; the node \<open>c\<close> is
  left as it was, in all its fields; and \<open>lastError\<close> is left as it was on every node
  of the graph.
\<close>

theorem cycle_nodes_are_left_out:
  assumes "distinct (map node_id ns)"
    and "\<forall>e\<in>set es. source e \<in> node_id ` set ns \<and> target e \<in> node_id ` set ns"
    and "(c, c) \<in> (edge_rel es)\<^sup>+"
  shows "\<exists>order. schedule ns es = Inr order \<and> c \<notin> set order
           \<and> executeFlow hs ns es =
               run_nodes hs (nodeMap ns) order \<lparr>nodes = ns, console = []\<rparr>
           \<and> (\<forall>k<length ns. node_id (ns ! k) = c \<longrightarrow>
                 nodes (final_flow (executeFlow hs ns es)) ! k = ns ! k)
           \<and> (\<forall>k<length ns.
                 lastError (nodes (final_flow (executeFlow hs ns es)) ! k) = lastError (ns ! k))"
proof -
  let ?st = "\<lparr>nodes = ns, console = []\<rparr>"
  from schedule_well_formed [OF assms(1,2)] obtain order ind' where o:
    "schedule ns es = Inr order"
    "topo_inv (node_id ` set ns - {''__proto__''}) es ind' [] order"
    by blast
  from o(2) have d: "distinct order"
    and pre: "\<forall>e\<in>set es. target e \<in> set order \<longrightarrow> precedes (source e) (target e) order"
    by (simp_all add: topo_inv_def)
  have out: "c \<notin> set order"
  proof
    assume "c \<in> set order"
    from precedes_along_path [OF d pre assms(3) this] d show False
      by (simp add: precedes_irrefl)
  qed
  have run: "executeFlow hs ns es = run_nodes hs (nodeMap ns) order ?st"
    using o(1) by (simp add: executeFlow_def)
  have same: "nodes (final_flow (executeFlow hs ns es)) ! k = ns ! k"
    if "node_id (ns ! k) = c" for k
  proof -
    have "\<forall>i\<in>set order. nodeMap ns i \<noteq> Some k"
    proof
      fix i assume i: "i \<in> set order"
      show "nodeMap ns i \<noteq> Some k"
      proof
        assume "nodeMap ns i = Some k"
        from nodeMap_Some [OF this] that have "i = c" by simp
        with i out show False by simp
      qed
    qed
    from run_nodes_untouched [OF this, of hs ?st] run show ?thesis by simp
  qed
  have err: "\<forall>k<length ns.
               lastError (nodes (final_flow (executeFlow hs ns es)) ! k) = lastError (ns ! k)"
    using run_nodes_keeps [of hs "nodeMap ns" order ?st] run by simp
  from o(1) out run same err show ?thesis by blast
qed

theorem cycle_nodes_are_left_out_witness:
  "distinct (map node_id [six_times_three, one_plus_one ''B'', one_plus_one ''C''])
   \<and> source (arrow ''B'' ''C'')
        \<in> node_id ` set [six_times_three, one_plus_one ''B'', one_plus_one ''C'']
   \<and> target (arrow ''B'' ''C'')
        \<in> node_id ` set [six_times_three, one_plus_one ''B'', one_plus_one ''C'']
   \<and> source (arrow ''C'' ''B'')
        \<in> node_id ` set [six_times_three, one_plus_one ''B'', one_plus_one ''C'']
   \<and> target (arrow ''C'' ''B'')
        \<in> node_id ` set [six_times_three, one_plus_one ''B'', one_plus_one ''C'']
   \<and> (''B'', ''B'') \<in> (edge_rel [arrow ''B'' ''C'', arrow ''C'' ''B''])\<^sup>+
   \<and> nodes (final_flow (executeFlow (steady offline_host)
               [six_times_three, one_plus_one ''B'', one_plus_one ''C'']
               [arrow ''B'' ''C'', arrow ''C'' ''B''])) ! 1 = one_plus_one ''B''
   \<and> result (data (one_plus_one ''B'')) = None
   \<and> execute_node offline_host (one_plus_one ''B'') =
       Next ((one_plus_one ''B'')\<lparr>data := Arithmetic (Fin 1) (Fin 1) Plus (Some (Fin 2))\<rparr>) []"
proof -
  let ?ns = "[six_times_three, one_plus_one ''B'', one_plus_one ''C'']"
  let ?es = "[arrow ''B'' ''C'', arrow ''C'' ''B'']"
  have d: "distinct (map node_id ?ns)"
    by (simp add: one_plus_one_def six_times_three_def)
  have e: "\<forall>e\<in>set ?es. source e \<in> node_id ` set ?ns \<and> target e \<in> node_id ` set ?ns"
    by (simp add: one_plus_one_def arrow_def)
  have "(''B'', ''C'') \<in> edge_rel ?es" "(''C'', ''B'') \<in> edge_rel ?es"
    by (simp_all add: edge_rel_def arrow_def)
  then have c: "(''B'', ''B'') \<in> (edge_rel ?es)\<^sup>+"
    by (rule trancl_into_trancl2 [OF _ r_into_trancl])
  from cycle_nodes_are_left_out [OF d e c, of "steady offline_host"]
  have "\<forall>k<length ?ns. node_id (?ns ! k) = ''B'' \<longrightarrow>
          nodes (final_flow (executeFlow (steady offline_host) ?ns ?es)) ! k = ?ns ! k"
    by blast
  then have same: "nodes (final_flow (executeFlow (steady offline_host) ?ns ?es)) ! 1 = ?ns ! 1"
    by (simp add: one_plus_one_def)
  have r: "result (data (one_plus_one ''B'')) = None" by (simp add: one_plus_one_def)
  have x: "execute_node offline_host (one_plus_one ''B'') =
             Next ((one_plus_one ''B'')\<lparr>data := Arithmetic (Fin 1) (Fin 1) Plus (Some (Fin 2))\<rparr>) []"
    by (simp add: execute_node_def eval_arith_def one_plus_one_def)
  from d e c same r x show ?thesis by simp
qed

end
